(* ===== verification/Carp_Prelude.thy ===== *)
theory Carp_Prelude
  imports Main "HOL-Library.Word"
begin

text \<open>
  Shared vocabulary of the carp hash-table development: the C integer types of
  \<open>src/src/lib/carp_ht.c\<close> as words, the collections of facts the component
  theories contribute to, and generic lemmas on lists of chains that the
  proofs about buckets use.
\<close>

section \<open>C types\<close>

text \<open>
  \<open>unsigned long\<close> and \<open>long long\<close> are 64-bit on the LP64 targets the code
  is written for; \<open>short int\<close> is 16-bit. Bucket counts (\<open>long size\<close>) are
  modelled as \<open>nat\<close>: the code asserts them positive and only ever doubles them,
  and an array of \<open>2\<^sup>6\<^sup>2\<close> pointers cannot be allocated, so their
  wrap-around never matters.
\<close>

type_synonym ulong = "64 word"
type_synonym long_long = "64 word"
type_synonym short = "16 word"
type_synonym schar = "8 word"

section \<open>Fact collections\<close>

named_theorems chain_simps "rewrite rules for the chain walks of the table"
named_theorems carp_eval "rewrite rules that evaluate the model on concrete tables"

section \<open>Lists of chains\<close>

text \<open>Sums of chain lengths under an update of one chain.\<close>

lemma sum_list_map_update_nat:
  assumes "i < length xs"
  shows "sum_list (map f (xs[i := x])) + f (xs ! i) = sum_list (map f xs) + (f x :: nat)"
  using assms
proof (induction xs arbitrary: i)
  case Nil
  then show ?case by simp
next
  case (Cons y ys)
  then show ?case by (cases i) auto
qed

lemma set_list_update_cases:
  "y \<in> set (xs[i := x]) \<Longrightarrow> y \<in> set xs \<or> y = x"
  using set_update_subset_insert by fastforce

text \<open>The first element with a key, after an update at the only position holding
  that key.\<close>

lemma find_distinct_update:
  assumes "distinct (map f xs)" "i < length xs" "f y = f (xs ! i)"
  shows "find (\<lambda>e. f e = f (xs ! i)) (xs[i := y]) = Some y"
  unfolding find_Some_iff
proof (intro exI conjI allI impI)
  show "i < length (xs[i := y])" using assms(2) by simp
  show "f (xs[i := y] ! i) = f (xs ! i)" using assms(2,3) by simp
  show "y = xs[i := y] ! i" using assms(2) by simp
next
  fix j assume "j < i"
  with assms(1,2) have "f (xs ! j) \<noteq> f (xs ! i)"
    by (simp add: distinct_conv_nth)
  with \<open>j < i\<close> show "f (xs[i := y] ! j) \<noteq> f (xs ! i)" by simp
qed

text \<open>A \<open>long\<close> holding a natural number below \<open>2\<^sup>6\<^sup>3\<close> reads back as that number.\<close>

lemma sint_word_of_nat_small: "n < 2 ^ 63 \<Longrightarrow> sint (word_of_nat n :: 64 word) = int n"
  by (simp add: signed_of_nat signed_take_bit_int_eq_self)

text \<open>Evaluation of bucket arrays with numeral sizes by the simplifier.\<close>

lemma replicate_numeral_Cons [carp_eval]:
  "replicate (numeral n) x = x # replicate (numeral n - 1) x"
  by (simp add: numeral_eq_Suc)

lemma list_update_Cons_numeral [carp_eval]:
  "(x # xs)[numeral n := y] = x # xs[numeral n - 1 := y]"
  by (simp add: numeral_eq_Suc)

declare upt_rec [carp_eval]

end
