(* ===== verification/Carp_Hash.thy ===== *)
theory Carp_Hash
  imports Carp_Prelude
begin

text \<open>
  The hash function of \<open>carp_ht.c\<close>: the djb2 raw hash \<open>carp_ht_rhash\<close>
  (lines 36--46) over 64-bit \<open>unsigned long\<close> words, and the bucket index
  \<open>carp_ht_hash\<close> (lines 48--52). Each byte is read as a (signed, on x86-64)
  \<open>char\<close> into an \<open>int c\<close> and added to the \<open>unsigned long\<close> hash, so
  bytes of 128 and above are sign-extended before the addition. The lemmas show
  that the shift-and-add of the loop is the multiplication by 33 the comment
  promises, that the loop computes the djb2 polynomial, that ASCII keys are not
  affected by the signedness of \<open>char\<close>, and how every other byte enters the hash
  (its unsigned value less 256).
\<close>

unbundle bit_operations_syntax

section \<open>Definitions\<close>

text \<open>\<open>int c = *str++\<close>, then \<open>hash + c\<close>: the byte read as a signed char and
  converted to \<open>unsigned long\<close> (sign extension).\<close>

definition char_int :: "char \<Rightarrow> ulong" where
  "char_int c = scast (word_of_nat (of_char c :: nat) :: schar)"

text \<open>The loop \<open>while ((c = *str++)) hash = ((hash << 5) + hash) + c;\<close>.
  A key is a C string: its characters are the bytes before the terminating NUL.\<close>

primrec carp_ht_rhash_loop :: "ulong \<Rightarrow> string \<Rightarrow> ulong" where
  "carp_ht_rhash_loop hash [] = hash"
| "carp_ht_rhash_loop hash (c # cs) =
     carp_ht_rhash_loop (push_bit 5 hash + hash + char_int c) cs"

definition carp_ht_rhash :: "string \<Rightarrow> ulong" where
  "carp_ht_rhash str = carp_ht_rhash_loop 5381 str"

text \<open>\<open>carp_ht_rhash(str) % size\<close>: \<open>size\<close> is a positive \<open>long\<close>, converted to
  \<open>unsigned long\<close> without change; the remainder is read as a bucket index.\<close>

definition carp_ht_hash :: "string \<Rightarrow> nat \<Rightarrow> nat" where
  "carp_ht_hash str sz = unat (carp_ht_rhash str) mod sz"

text \<open>The djb2 polynomial, the reference the loop is checked against.\<close>

definition djb2_poly :: "ulong \<Rightarrow> string \<Rightarrow> ulong" where
  "djb2_poly h cs =
     h * 33 ^ length cs + (\<Sum>i<length cs. char_int (cs ! i) * 33 ^ (length cs - Suc i))"

section \<open>The loop\<close>

lemma rhash_shift_add: "push_bit 5 (h :: ulong) + h = h * 33"
  by (simp add: push_bit_eq_mult algebra_simps)

lemma carp_ht_rhash_loop_append:
  "carp_ht_rhash_loop h (xs @ ys) = carp_ht_rhash_loop (carp_ht_rhash_loop h xs) ys"
  by (induction xs arbitrary: h) auto

lemma carp_ht_rhash_loop_snoc:
  "carp_ht_rhash_loop h (xs @ [c]) = carp_ht_rhash_loop h xs * 33 + char_int c"
  by (simp add: carp_ht_rhash_loop_append rhash_shift_add)

lemma djb2_poly_snoc:
  "djb2_poly h (cs @ [c]) = djb2_poly h cs * 33 + char_int c"
proof -
  have "(\<Sum>i<length cs. char_int ((cs @ [c]) ! i) * 33 ^ (length cs - i))
      = (\<Sum>i<length cs. char_int (cs ! i) * 33 ^ (length cs - Suc i) * 33)"
  proof (rule sum.cong)
    fix i
    assume i: "i \<in> {..<length cs}"
    then have "length cs - i = Suc (length cs - Suc i)" by simp
    with i show "char_int ((cs @ [c]) ! i) * 33 ^ (length cs - i)
      = char_int (cs ! i) * 33 ^ (length cs - Suc i) * 33"
      by (simp add: nth_append mult.assoc)
  qed simp
  then have "(\<Sum>i<length (cs @ [c]). char_int ((cs @ [c]) ! i) * 33 ^ (length (cs @ [c]) - Suc i))
      = (\<Sum>i<length cs. char_int (cs ! i) * 33 ^ (length cs - Suc i)) * 33 + char_int c"
    by (simp add: sum_distrib_right)
  then show ?thesis
    by (simp add: djb2_poly_def algebra_simps)
qed

text \<open>The shift-and-add loop computes the djb2 polynomial, modulo \<open>2\<^sup>6\<^sup>4\<close>.\<close>

lemma carp_ht_rhash_loop_poly: "carp_ht_rhash_loop h cs = djb2_poly h cs"
proof (induction cs rule: rev_induct)
  case Nil
  then show ?case by (simp add: djb2_poly_def)
next
  case (snoc c cs)
  then show ?case by (simp add: carp_ht_rhash_loop_snoc djb2_poly_snoc)
qed

lemma char_int_ascii:
  assumes "of_char c < (128::nat)"
  shows "char_int c = word_of_nat (of_char c)"
proof -
  have "sint (word_of_nat (of_char c :: nat) :: schar) = int (of_char c)"
    using assms by (simp add: signed_of_nat signed_take_bit_int_eq_self)
  then show ?thesis by (simp add: char_int_def scast_eq)
qed

lemma carp_ht_hash_lt: "0 < sz \<Longrightarrow> carp_ht_hash str sz < sz"
  by (simp add: carp_ht_hash_def)


lemma sbyte_high:
  assumes "128 \<le> n" "n < (256::nat)"
  shows "signed_take_bit 7 (int n) = int n - 256"
proof -
  have "bit (int n) 7"
  proof -
    have "int n div 2 ^ 7 = 1" using assms by simp
    then show ?thesis by (simp add: bit_iff_odd)
  qed
  moreover have "take_bit 8 (int n) = int n" using assms by (simp add: take_bit_int_eq_self)
  ultimately show ?thesis by (simp add: signed_take_bit_eq_take_bit_minus)
qed

lemma char_int_sext:
  "char_int c = word_of_nat (of_char c) - (if 128 \<le> (of_char c :: nat) then 256 else 0)"
proof (cases "of_char c < (128::nat)")
  case True
  then show ?thesis by (simp add: char_int_ascii)
next
  case False
  then have n: "128 \<le> (of_char c :: nat)" "(of_char c :: nat) < 256" by simp_all
  have "sint (word_of_nat (of_char c :: nat) :: schar) = int (of_char c) - 256"
    using sbyte_high [OF n] by (simp add: signed_of_nat)
  then have "char_int c = word_of_int (int (of_char c) - 256)" by (simp add: char_int_def scast_eq)
  with n show ?thesis by simp
qed

lemma carp_ht_rhash_loop_foldl:
  "carp_ht_rhash_loop h cs = foldl (\<lambda>a c. a * 33 + char_int c) h cs"
  by (induction cs arbitrary: h) (simp_all add: rhash_shift_add)

declare carp_ht_hash_def [carp_eval] carp_ht_rhash_def [carp_eval] char_int_def [carp_eval]

section \<open>Properties\<close>

text \<open>C21: The shift-and-add loop of \<open>carp_ht_rhash\<close> computes the djb2 polynomial
  \<open>5381 * 33^n + \<Sum> c_i * 33^(n-1-i)\<close> modulo \<open>2^64\<close>, as its comment
  \<open>hash * 33 + c\<close> says.\<close>

theorem carp_ht_rhash_djb2:
  "carp_ht_rhash str = djb2_poly 5381 str"
  by (simp add: carp_ht_rhash_def carp_ht_rhash_loop_poly)



text \<open>C23: The hash of every key, with the signedness of \<open>char\<close> spelled out:
  each byte is added as its unsigned value, less 256 when it is 128 or more (the
  sign extension of a negative \<open>char\<close> into \<open>unsigned long\<close>).\<close>

theorem carp_ht_rhash_bytes:
  "carp_ht_rhash str =
     foldl (\<lambda>a c. a * 33 + (word_of_nat (of_char c) - (if 128 \<le> (of_char c :: nat) then 256 else 0)))
       5381 str"
  by (simp add: carp_ht_rhash_def carp_ht_rhash_loop_foldl char_int_sext)

end
