(* ===== verification/Carp_Table.thy ===== *)
theory Carp_Table
  imports Carp_Hash
begin

text \<open>
  The table store of \<open>carp_ht.c\<close> and its non-recursive operations. The
  \<open>carp_ht\<close> struct (\<open>long size; carp_ht_entry **buckets\<close>) is the record
  \<open>carp_ht\<close>; a bucket's singly linked chain of \<open>carp_ht_entry\<close> nodes is the
  list of its entries in link order (the \<open>next\<close> pointers are the list
  structure; a pointer into a chain is a position in the list). The NULL bucket
  array left by a failed \<open>malloc\<close> is the empty list. Operations: the occupancy
  \<open>carp_ht_used\<close> (lines 54--66), \<open>carp_ht_init\<close> (68--81), \<open>carp_ht_del\<close>
  (83--117), the store part of \<open>carp_ht_set\<close> after its resize check
  (132--159), \<open>carp_ht_get\<close> (162--176) and \<open>carp_ht_cleanup\<close> (226--242).
  The lemmas give each chain walk's result in closed form, the behaviour of each
  operation on every branch, and the preservation of the placement invariant
  \<open>carp_ht_wf\<close>.
\<close>

section \<open>Data\<close>

record carp_ht_entry =
  ent_key :: string
  ent_val :: long_long

type_synonym chain = "carp_ht_entry list"

record carp_ht =
  ht_size :: nat
  ht_buckets :: "chain list"

text \<open>The status codes the functions return: \<open>0\<close> success, \<open>1\<close> an allocation
  failure (init, resize, set) or an empty bucket (del), \<open>2\<close> a key not found
  (del).\<close>

datatype carp_status = Ok | Alloc_failure | Empty_bucket | Not_found

fun carp_status_code :: "carp_status \<Rightarrow> int" where
  "carp_status_code Ok = 0"
| "carp_status_code Alloc_failure = 1"
| "carp_status_code Empty_bucket = 1"
| "carp_status_code Not_found = 2"

abbreviation new_entry :: "string \<Rightarrow> long_long \<Rightarrow> carp_ht_entry" where
  "new_entry k v \<equiv> \<lparr>ent_key = k, ent_val = v\<rparr>"

section \<open>Occupancy\<close>

text \<open>The double loop of \<open>carp_ht_used\<close> counts the nodes of the buckets
  \<open>0 .. size-1\<close>; the quotient \<open>in_use * 100 / size\<close> is returned as a
  \<open>short int\<close>.\<close>

definition carp_ht_in_use :: "carp_ht \<Rightarrow> nat" where
  "carp_ht_in_use h = sum_list (map length (take (ht_size h) (ht_buckets h)))"

definition carp_ht_used :: "carp_ht \<Rightarrow> int" where
  "carp_ht_used h = sint (word_of_nat (carp_ht_in_use h * 100 div ht_size h) :: short)"

section \<open>Initialisation\<close>

text \<open>\<open>carp_ht_init(h, size)\<close> with an allocator that satisfies requests of up to
  \<open>cap\<close> bucket pointers. \<open>None\<close> is the failed \<open>assert(size > 0)\<close>, which
  aborts the program; on a failed \<open>malloc\<close> the size is already stored and the
  bucket array is NULL.\<close>

definition carp_ht_init :: "nat \<Rightarrow> nat \<Rightarrow> carp_ht \<Rightarrow> (carp_status \<times> carp_ht) option" where
  "carp_ht_init cap sz h =
     (if sz = 0 then None
      else if cap < sz then Some (Alloc_failure, h\<lparr>ht_size := sz, ht_buckets := []\<rparr>)
      else Some (Ok, h\<lparr>ht_size := sz, ht_buckets := replicate sz []\<rparr>))"

section \<open>Lookup\<close>

text \<open>The loop of \<open>carp_ht_get\<close>: \<open>while (base && strcmp(base->key, key) != 0)
  { if (hash >= h->size) return NULL; base = base->next; }\<close>. The result is the
  position of \<open>base\<close> in the chain (\<open>j\<close> counts the steps).\<close>

fun get_walk :: "nat \<Rightarrow> nat \<Rightarrow> string \<Rightarrow> chain \<Rightarrow> nat \<Rightarrow> nat option" where
  "get_walk hash sz k [] j = None"
| "get_walk hash sz k (e # es) j =
     (if ent_key e \<noteq> k then (if sz \<le> hash then None else get_walk hash sz k es (Suc j))
      else Some j)"

definition carp_ht_get_pos :: "carp_ht \<Rightarrow> string \<Rightarrow> nat option" where
  "carp_ht_get_pos h k =
     (let hash = carp_ht_hash k (ht_size h)
      in get_walk hash (ht_size h) k (ht_buckets h ! hash) 0)"

definition carp_ht_get :: "carp_ht \<Rightarrow> string \<Rightarrow> carp_ht_entry option" where
  "carp_ht_get h k =
     map_option (\<lambda>j. ht_buckets h ! carp_ht_hash k (ht_size h) ! j) (carp_ht_get_pos h k)"

section \<open>Store (the part of set after the resize check)\<close>

text \<open>The loop \<open>while (base->next) { if (strcmp(base->next->key, key) != 0)
  { base->next->value = value; return 0; } base = base->next; }\<close> followed by the
  append of a new node: the argument is the chain after \<open>base\<close>.\<close>

fun set_walk :: "string \<Rightarrow> long_long \<Rightarrow> chain \<Rightarrow> chain" where
  "set_walk k v [] = [new_entry k v]"
| "set_walk k v (e # es) =
     (if ent_key e \<noteq> k then e\<lparr>ent_val := v\<rparr> # es else e # set_walk k v es)"

text \<open>\<open>base = carp_ht_get(h, key)\<close>; if NULL the bucket head is overwritten by a
  fresh node, otherwise the walk above runs from \<open>base\<close>.\<close>

definition carp_ht_store :: "carp_ht \<Rightarrow> string \<Rightarrow> long_long \<Rightarrow> carp_ht" where
  "carp_ht_store h k v =
     (let hash = carp_ht_hash k (ht_size h); c = ht_buckets h ! hash
      in case carp_ht_get_pos h k of
           None \<Rightarrow> h\<lparr>ht_buckets := (ht_buckets h)[hash := [new_entry k v]]\<rparr>
         | Some j \<Rightarrow>
             h\<lparr>ht_buckets := (ht_buckets h)[hash := take (Suc j) c @ set_walk k v (drop (Suc j) c)]\<rparr>)"

section \<open>Deletion\<close>

text \<open>The loop of \<open>carp_ht_del\<close> from the chain head, whose key is known not to
  match: \<open>while (strcmp(base->key, key) != 0) { if (base->next == NULL) return 2;
  prev = base; base = base->next; } prev->next = base->next;\<close>\<close>

fun del_walk :: "string \<Rightarrow> chain \<Rightarrow> chain option" where
  "del_walk k [] = None"
| "del_walk k (e # es) =
     (if ent_key e \<noteq> k then (if es = [] then None else map_option (Cons e) (del_walk k es))
      else Some es)"

definition carp_ht_del :: "carp_ht \<Rightarrow> string \<Rightarrow> carp_status \<times> carp_ht" where
  "carp_ht_del h k =
     (let hash = carp_ht_hash k (ht_size h); c = ht_buckets h ! hash
      in case c of
           [] \<Rightarrow> (Empty_bucket, h)
         | e # es \<Rightarrow>
             if ent_key e = k then (Ok, h\<lparr>ht_buckets := (ht_buckets h)[hash := es]\<rparr>)
             else (case del_walk k c of
                     None \<Rightarrow> (Not_found, h)
                   | Some c' \<Rightarrow> (Ok, h\<lparr>ht_buckets := (ht_buckets h)[hash := c']\<rparr>)))"

section \<open>Cleanup\<close>

text \<open>\<open>carp_ht_cleanup\<close> frees the nodes of the buckets \<open>0 .. size-1\<close>, each chain
  from its head, then the array: the result is the sequence of nodes released.\<close>

definition carp_ht_cleanup :: "carp_ht \<Rightarrow> chain" where
  "carp_ht_cleanup h = concat (take (ht_size h) (ht_buckets h))"

section \<open>Invariant\<close>

text \<open>A usable table: a positive size equal to the length of the bucket array, and
  every entry of bucket \<open>i\<close> hashes to \<open>i\<close>.\<close>

definition carp_ht_wf :: "carp_ht \<Rightarrow> bool" where
  "carp_ht_wf h \<longleftrightarrow>
     0 < ht_size h \<and> length (ht_buckets h) = ht_size h \<and>
     (\<forall>i < ht_size h. \<forall>e \<in> set (ht_buckets h ! i). carp_ht_hash (ent_key e) (ht_size h) = i)"

text \<open>Reference chain operations, the contracts the walks are checked against.\<close>

definition has_key :: "string \<Rightarrow> chain \<Rightarrow> bool" where
  "has_key k c \<longleftrightarrow> (\<exists>e \<in> set c. ent_key e = k)"

fun chain_remove :: "string \<Rightarrow> chain \<Rightarrow> chain" where
  "chain_remove k [] = []"
| "chain_remove k (e # es) = (if ent_key e = k then es else e # chain_remove k es)"

section \<open>Lemmas\<close>


lemma get_walk_find:
  "hash < sz \<Longrightarrow>
   map_option (\<lambda>i. (pre @ c) ! i) (get_walk hash sz k c (length pre)) = find (\<lambda>e. ent_key e = k) c"
proof (induction c arbitrary: pre)
  case Nil
  then show ?case by simp
next
  case (Cons e es)
  show ?case
  proof (cases "ent_key e = k")
    case True
    then show ?thesis by (simp add: nth_append)
  next
    case False
    have "map_option (\<lambda>i. ((pre @ [e]) @ es) ! i) (get_walk hash sz k es (length (pre @ [e])))
        = find (\<lambda>e. ent_key e = k) es"
      by (rule Cons.IH [OF Cons.prems])
    with False Cons.prems show ?thesis by simp
  qed
qed

lemma get_walk_Some:
  "get_walk hash sz k c j = Some i \<Longrightarrow>
   j \<le> i \<and> i - j < length c \<and> ent_key (c ! (i - j)) = k \<and> (\<forall>m < i - j. ent_key (c ! m) \<noteq> k)"
proof (induction c arbitrary: j)
  case Nil
  then show ?case by simp
next
  case (Cons e es)
  show ?case
  proof (cases "ent_key e = k")
    case True
    with Cons.prems show ?thesis by simp
  next
    case False
    with Cons.prems have rec: "get_walk hash sz k es (Suc j) = Some i"
      by (simp split: if_splits)
    from Cons.IH [OF rec] have ih: "Suc j \<le> i" "i - Suc j < length es"
      "ent_key (es ! (i - Suc j)) = k" "\<forall>m < i - Suc j. ent_key (es ! m) \<noteq> k" by auto
    then have eq: "i - j = Suc (i - Suc j)" by simp
    have "\<forall>m < i - j. ent_key ((e # es) ! m) \<noteq> k"
    proof (intro allI impI)
      fix m assume "m < i - j"
      with False ih(4) eq show "ent_key ((e # es) ! m) \<noteq> k" by (cases m) auto
    qed
    with ih eq show ?thesis by simp
  qed
qed

lemma get_walk_None:
  "hash < sz \<Longrightarrow> get_walk hash sz k c j = None \<longleftrightarrow> \<not> has_key k c"
  by (induction c arbitrary: j) (auto simp: has_key_def)

lemma del_walk_remove [chain_simps]:
  "del_walk k c = (if has_key k c then Some (chain_remove k c) else None)"
proof (induction c)
  case Nil
  then show ?case by (simp add: has_key_def)
next
  case (Cons e es)
  then show ?case by (cases es) (auto simp: has_key_def)
qed

lemma carp_ht_get_find:
  "0 < ht_size h \<Longrightarrow>
   carp_ht_get h k = find (\<lambda>e. ent_key e = k) (ht_buckets h ! carp_ht_hash k (ht_size h))"
  using get_walk_find [of "carp_ht_hash k (ht_size h)" "ht_size h" "[]"]
  by (simp add: carp_ht_get_def carp_ht_get_pos_def carp_ht_hash_lt Let_def)

lemma carp_ht_del_closed:
  "carp_ht_del h k =
     (let hash = carp_ht_hash k (ht_size h); c = ht_buckets h ! hash
      in if c = [] then (Empty_bucket, h)
         else if has_key k c then (Ok, h\<lparr>ht_buckets := (ht_buckets h)[hash := chain_remove k c]\<rparr>)
         else (Not_found, h))"
  by (auto simp: carp_ht_del_def Let_def chain_simps has_key_def split: list.split)


lemma carp_ht_get_pos_Some:
  "carp_ht_get_pos h k = Some j \<Longrightarrow>
   (let c = ht_buckets h ! carp_ht_hash k (ht_size h)
    in j < length c \<and> ent_key (c ! j) = k \<and> (\<forall>m < j. ent_key (c ! m) \<noteq> k))"
  unfolding carp_ht_get_pos_def Let_def by (drule get_walk_Some) simp

lemma carp_ht_get_pos_None:
  "0 < ht_size h \<Longrightarrow>
   carp_ht_get_pos h k = None \<longleftrightarrow> \<not> has_key k (ht_buckets h ! carp_ht_hash k (ht_size h))"
  by (simp add: carp_ht_get_pos_def get_walk_None carp_ht_hash_lt Let_def)

lemma set_walk_keys:
  "map ent_key (set_walk k v es) =
   (if \<exists>e \<in> set es. ent_key e \<noteq> k then map ent_key es else map ent_key es @ [k])"
  by (induction es) auto

lemma length_set_walk:
  "length (set_walk k v es) = (if \<exists>e \<in> set es. ent_key e \<noteq> k then length es else Suc (length es))"
  using arg_cong [OF set_walk_keys, of length k v es] by (simp split: if_splits)

lemma set_walk_key_set: "ent_key ` set (set_walk k v es) \<subseteq> insert k (ent_key ` set es)"
  by (induction es) auto

lemma in_use_update:
  assumes "i < ht_size h" "i < length (ht_buckets h)"
  shows "carp_ht_in_use (h\<lparr>ht_buckets := (ht_buckets h)[i := c]\<rparr>) + length (ht_buckets h ! i)
       = carp_ht_in_use h + length c"
proof -
  have "take (ht_size h) ((ht_buckets h)[i := c]) = (take (ht_size h) (ht_buckets h))[i := c]"
    by (simp add: take_update_swap)
  moreover have "i < length (take (ht_size h) (ht_buckets h))" using assms by simp
  ultimately show ?thesis
    using sum_list_map_update_nat [of i "take (ht_size h) (ht_buckets h)" length c] assms
    by (simp add: carp_ht_in_use_def)
qed


lemma carp_ht_wf_update:
  assumes "carp_ht_wf h" "i < ht_size h"
    and "\<forall>e \<in> set c. carp_ht_hash (ent_key e) (ht_size h) = i"
  shows "carp_ht_wf (h\<lparr>ht_buckets := (ht_buckets h)[i := c]\<rparr>)"
  using assms by (auto simp: carp_ht_wf_def nth_list_update)

lemma carp_ht_wf_hash_lt: "carp_ht_wf h \<Longrightarrow> carp_ht_hash k (ht_size h) < length (ht_buckets h)"
  by (simp add: carp_ht_wf_def carp_ht_hash_lt)

text \<open>The facts about indices a well-formed table gives every operation.\<close>

lemma carp_ht_wf_index:
  assumes "carp_ht_wf h"
  shows "0 < ht_size h" "carp_ht_hash k (ht_size h) < ht_size h"
    "carp_ht_hash k (ht_size h) < length (ht_buckets h)"
  using assms by (simp_all add: carp_ht_wf_def carp_ht_hash_lt)

lemma carp_ht_wf_bucket_hash:
  "carp_ht_wf h \<Longrightarrow> e \<in> set (ht_buckets h ! carp_ht_hash k (ht_size h)) \<Longrightarrow>
   carp_ht_hash (ent_key e) (ht_size h) = carp_ht_hash k (ht_size h)"
  by (simp add: carp_ht_wf_def carp_ht_hash_lt)

lemma set_walk_hash:
  assumes "\<forall>e \<in> set es. carp_ht_hash (ent_key e) n = i" "carp_ht_hash k n = i"
  shows "\<forall>e \<in> set (set_walk k v es). carp_ht_hash (ent_key e) n = i"
  using assms by (induction es) auto

lemma carp_ht_store_chain:
  "carp_ht_store h k v =
     h\<lparr>ht_buckets := (ht_buckets h)[carp_ht_hash k (ht_size h) :=
        (case carp_ht_get_pos h k of
           None \<Rightarrow> [new_entry k v]
         | Some j \<Rightarrow> take (Suc j) (ht_buckets h ! carp_ht_hash k (ht_size h))
                    @ set_walk k v (drop (Suc j) (ht_buckets h ! carp_ht_hash k (ht_size h))))]\<rparr>"
  by (simp add: carp_ht_store_def Let_def split: option.split)

lemma carp_ht_store_size [simp]:
  "ht_size (carp_ht_store h k v) = ht_size h"
  "length (ht_buckets (carp_ht_store h k v)) = length (ht_buckets h)"
  by (simp_all add: carp_ht_store_chain)

lemma carp_ht_store_in_use:
  assumes wf: "carp_ht_wf h"
  shows "carp_ht_in_use (carp_ht_store h k v) \<le> Suc (carp_ht_in_use h)"
proof -
  let ?i = "carp_ht_hash k (ht_size h)"
  let ?c = "ht_buckets h ! ?i"
  have i: "?i < ht_size h" "?i < length (ht_buckets h)"
    using carp_ht_wf_index [OF wf] by simp_all
  have len: "length (case carp_ht_get_pos h k of
           None \<Rightarrow> [new_entry k v]
         | Some j \<Rightarrow> take (Suc j) ?c @ set_walk k v (drop (Suc j) ?c)) \<le> Suc (length ?c)"
  proof (cases "carp_ht_get_pos h k")
    case None
    then show ?thesis by simp
  next
    case (Some j)
    then have "j < length ?c" by (auto dest: carp_ht_get_pos_Some simp: Let_def)
    with Some show ?thesis by (auto simp add: length_set_walk)
  qed
  let ?c' = "case carp_ht_get_pos h k of
           None \<Rightarrow> [new_entry k v]
         | Some j \<Rightarrow> take (Suc j) ?c @ set_walk k v (drop (Suc j) ?c)"
  have "carp_ht_in_use (carp_ht_store h k v) + length ?c = carp_ht_in_use h + length ?c'"
    using in_use_update [OF i, of ?c'] by (simp only: carp_ht_store_chain)
  with len show ?thesis by linarith
qed

lemma carp_ht_store_wf:
  assumes wf: "carp_ht_wf h"
  shows "carp_ht_wf (carp_ht_store h k v)"
proof -
  let ?i = "carp_ht_hash k (ht_size h)"
  let ?c = "ht_buckets h ! ?i"
  have old: "\<forall>e \<in> set ?c. carp_ht_hash (ent_key e) (ht_size h) = ?i"
    using carp_ht_wf_bucket_hash [OF wf] by blast
  have i: "?i < ht_size h"
    using carp_ht_wf_index [OF wf] by simp
  let ?c' = "case carp_ht_get_pos h k of
           None \<Rightarrow> [new_entry k v]
         | Some j \<Rightarrow> take (Suc j) ?c @ set_walk k v (drop (Suc j) ?c)"
  have "\<forall>e \<in> set ?c'. carp_ht_hash (ent_key e) (ht_size h) = ?i"
  proof (cases "carp_ht_get_pos h k")
    case None
    then show ?thesis by simp
  next
    case (Some j)
    have "\<forall>e \<in> set (drop (Suc j) ?c). carp_ht_hash (ent_key e) (ht_size h) = ?i"
      using old by (meson in_set_dropD)
    then have "\<forall>e \<in> set (set_walk k v (drop (Suc j) ?c)). carp_ht_hash (ent_key e) (ht_size h) = ?i"
      by (rule set_walk_hash) simp
    moreover have "\<forall>e \<in> set (take (Suc j) ?c). carp_ht_hash (ent_key e) (ht_size h) = ?i"
      using old by (meson in_set_takeD)
    ultimately show ?thesis using Some by auto
  qed
  from carp_ht_wf_update [OF wf i this] show ?thesis
    by (simp only: carp_ht_store_chain)
qed


lemma carp_ht_get_pos_wf_None:
  "carp_ht_wf h \<Longrightarrow>
   carp_ht_get_pos h k = None \<longleftrightarrow> \<not> has_key k (ht_buckets h ! carp_ht_hash k (ht_size h))"
  by (simp add: carp_ht_wf_def carp_ht_get_pos_None)

lemma find_prefix_match:
  assumes "j < length c" "P (c ! j)" "\<forall>m < j. \<not> P (c ! m)"
  shows "find P (take (Suc j) c @ r) = Some (c ! j)"
  using assms unfolding find_Some_iff
  by (intro exI [of _ j]) (auto simp: nth_append)

lemma store_get_fresh:
  assumes wf: "carp_ht_wf h" and fresh: "\<not> has_key k (ht_buckets h ! carp_ht_hash k (ht_size h))"
  shows "carp_ht_get (carp_ht_store h k v) k = Some (new_entry k v)"
proof -
  have "carp_ht_get_pos h k = None" using wf fresh by (simp add: carp_ht_get_pos_wf_None)
  moreover have "0 < ht_size h" "carp_ht_hash k (ht_size h) < length (ht_buckets h)"
    using carp_ht_wf_index [OF wf] by simp_all
  ultimately show ?thesis by (simp add: carp_ht_get_find carp_ht_store_chain)
qed

lemma store_get_present:
  assumes wf: "carp_ht_wf h" and old: "carp_ht_get h k = Some e"
  shows "carp_ht_get (carp_ht_store h k v) k = Some e"
proof -
  let ?i = "carp_ht_hash k (ht_size h)"
  let ?c = "ht_buckets h ! ?i"
  obtain j where pos: "carp_ht_get_pos h k = Some j"
    using old by (auto simp: carp_ht_get_def)
  then have e: "e = ?c ! j" using old by (simp add: carp_ht_get_def)
  from carp_ht_get_pos_Some [OF pos]
  have j: "j < length ?c" "ent_key (?c ! j) = k" "\<forall>m < j. ent_key (?c ! m) \<noteq> k"
    by (simp_all add: Let_def)
  have "0 < ht_size h" "?i < length (ht_buckets h)"
    using carp_ht_wf_index [OF wf] by simp_all
  with pos j e show ?thesis
    by (simp add: carp_ht_get_find carp_ht_store_chain find_prefix_match)
qed

lemma store_other_bucket:
  assumes wf: "carp_ht_wf h" and ne: "carp_ht_hash k' (ht_size h) \<noteq> carp_ht_hash k (ht_size h)"
  shows "carp_ht_get (carp_ht_store h k v) k' = carp_ht_get h k'"
proof -
  have "0 < ht_size h" by (rule carp_ht_wf_index(1) [OF wf])
  with ne show ?thesis by (simp add: carp_ht_get_find carp_ht_store_chain)
qed

lemma store_collision_drops:
  assumes wf: "carp_ht_wf h" and fresh: "\<not> has_key k (ht_buckets h ! carp_ht_hash k (ht_size h))"
    and same: "carp_ht_hash k' (ht_size h) = carp_ht_hash k (ht_size h)" and ne: "k' \<noteq> k"
  shows "carp_ht_get (carp_ht_store h k v) k' = None"
proof -
  have "carp_ht_get_pos h k = None" using wf fresh by (simp add: carp_ht_get_pos_wf_None)
  moreover have "0 < ht_size h" "carp_ht_hash k (ht_size h) < length (ht_buckets h)"
    using carp_ht_wf_index [OF wf] by simp_all
  ultimately show ?thesis using same ne by (simp add: carp_ht_get_find carp_ht_store_chain)
qed


lemma set_walk_all_key:
  "\<forall>e \<in> set es. ent_key e = k \<Longrightarrow> set_walk k v es = es @ [new_entry k v]"
  by (induction es) auto

lemma store_update_next_chain:
  assumes wf: "carp_ht_wf h" and pos: "carp_ht_get_pos h k = Some j"
    and nxt: "Suc j < length (ht_buckets h ! carp_ht_hash k (ht_size h))"
    and ne: "ent_key (ht_buckets h ! carp_ht_hash k (ht_size h) ! Suc j) \<noteq> k"
  shows "ht_buckets (carp_ht_store h k v) ! carp_ht_hash k (ht_size h)
       = (let c = ht_buckets h ! carp_ht_hash k (ht_size h) in c[Suc j := (c ! Suc j)\<lparr>ent_val := v\<rparr>])"
proof -
  let ?c = "ht_buckets h ! carp_ht_hash k (ht_size h)"
  have i: "carp_ht_hash k (ht_size h) < length (ht_buckets h)"
    using wf by (rule carp_ht_wf_hash_lt)
  have "drop (Suc j) ?c = ?c ! Suc j # drop (Suc (Suc j)) ?c"
    using nxt by (simp add: Cons_nth_drop_Suc)
  with ne have sw: "set_walk k v (drop (Suc j) ?c) = (?c ! Suc j)\<lparr>ent_val := v\<rparr> # drop (Suc (Suc j)) ?c"
    by simp
  have "ht_buckets (carp_ht_store h k v) ! carp_ht_hash k (ht_size h)
      = take (Suc j) ?c @ set_walk k v (drop (Suc j) ?c)"
    using pos i by (simp add: carp_ht_store_chain)
  also have "\<dots> = ?c[Suc j := (?c ! Suc j)\<lparr>ent_val := v\<rparr>]"
    using sw by (simp add: upd_conv_take_nth_drop [OF nxt])
  finally show ?thesis by (simp add: Let_def)
qed


lemma chain_remove_length [chain_simps]:
  "has_key k c \<Longrightarrow> Suc (length (chain_remove k c)) = length c"
  by (induction c) (auto simp: has_key_def)

lemma chain_remove_subset: "set (chain_remove k c) \<subseteq> set c"
  by (induction c) auto

lemma chain_remove_distinct:
  "distinct (map ent_key c) \<Longrightarrow> \<not> has_key k (chain_remove k c)"
proof (induction c)
  case Nil
  then show ?case by (simp add: has_key_def)
next
  case (Cons a c)
  show ?case
  proof (cases "ent_key a = k")
    case True
    with Cons.prems show ?thesis by (clarsimp simp: has_key_def) (metis image_eqI)
  next
    case False
    with Cons show ?thesis by (simp add: has_key_def)
  qed
qed

lemma chain_remove_absent: "\<not> has_key k c \<Longrightarrow> chain_remove k c = c"
  by (induction c) (auto simp: has_key_def)

lemma carp_ht_del_size [simp]:
  "ht_size (snd (carp_ht_del h k)) = ht_size h"
  "length (ht_buckets (snd (carp_ht_del h k))) = length (ht_buckets h)"
  by (simp_all add: carp_ht_del_closed Let_def)

lemma carp_ht_del_error_unchanged:
  "fst (carp_ht_del h k) \<noteq> Ok \<Longrightarrow> snd (carp_ht_del h k) = h"
  by (simp add: carp_ht_del_closed Let_def split: if_splits)

lemma carp_ht_del_wf:
  assumes wf: "carp_ht_wf h"
  shows "carp_ht_wf (snd (carp_ht_del h k))"
proof -
  let ?i = "carp_ht_hash k (ht_size h)"
  let ?c = "ht_buckets h ! ?i"
  have i: "?i < ht_size h" using carp_ht_wf_index [OF wf] by simp
  have "\<forall>e \<in> set (chain_remove k ?c). carp_ht_hash (ent_key e) (ht_size h) = ?i"
    using carp_ht_wf_bucket_hash [OF wf] chain_remove_subset by blast
  from carp_ht_wf_update [OF wf i this] wf show ?thesis
    by (simp add: carp_ht_del_closed Let_def)
qed

lemma carp_ht_del_in_use:
  assumes wf: "carp_ht_wf h" and ok: "fst (carp_ht_del h k) = Ok"
  shows "Suc (carp_ht_in_use (snd (carp_ht_del h k))) = carp_ht_in_use h"
proof -
  let ?i = "carp_ht_hash k (ht_size h)"
  let ?c = "ht_buckets h ! ?i"
  have i: "?i < ht_size h" "?i < length (ht_buckets h)"
    using carp_ht_wf_index [OF wf] by simp_all
  have hk: "has_key k ?c" and c: "?c \<noteq> []"
    using ok by (simp_all add: carp_ht_del_closed Let_def split: if_splits)
  then have del: "snd (carp_ht_del h k) = h\<lparr>ht_buckets := (ht_buckets h)[?i := chain_remove k ?c]\<rparr>"
    by (simp add: carp_ht_del_closed Let_def)
  show ?thesis
    using in_use_update [OF i, of "chain_remove k ?c"] chain_remove_length [OF hk]
    by (simp add: del)
qed

lemma carp_ht_del_get:
  assumes wf: "carp_ht_wf h"
  shows "carp_ht_get (snd (carp_ht_del h k)) k
       = find (\<lambda>e. ent_key e = k) (chain_remove k (ht_buckets h ! carp_ht_hash k (ht_size h)))"
proof -
  let ?i = "carp_ht_hash k (ht_size h)"
  let ?c = "ht_buckets h ! ?i"
  have pos: "0 < ht_size h" "?i < length (ht_buckets h)"
    using carp_ht_wf_index [OF wf] by simp_all
  show ?thesis
    using pos chain_remove_absent [of k ?c]
    by (auto simp: carp_ht_del_closed Let_def carp_ht_get_find)
qed


lemma filter_chain_remove:
  "has_key k c \<Longrightarrow>
   Suc (length (filter (\<lambda>e. ent_key e = k) (chain_remove k c))) = length (filter (\<lambda>e. ent_key e = k) c)"
  by (induction c) (auto simp: has_key_def)

lemma carp_ht_del_dup:
  assumes wf: "carp_ht_wf h"
    and dup: "2 \<le> length (filter (\<lambda>e. ent_key e = k) (ht_buckets h ! carp_ht_hash k (ht_size h)))"
  shows "\<exists>h'. carp_ht_del h k = (Ok, h') \<and> carp_ht_get h' k \<noteq> None"
proof -
  let ?c = "ht_buckets h ! carp_ht_hash k (ht_size h)"
  have "filter (\<lambda>e. ent_key e = k) ?c \<noteq> []" using dup by auto
  then have hk: "has_key k ?c" by (simp add: has_key_def filter_empty_conv)
  then have ne: "?c \<noteq> []" by (auto simp: has_key_def)
  from filter_chain_remove [OF hk] dup
  have "filter (\<lambda>e. ent_key e = k) (chain_remove k ?c) \<noteq> []" by auto
  then have found: "find (\<lambda>e. ent_key e = k) (chain_remove k ?c) \<noteq> None"
    by (auto simp: find_None_iff filter_empty_conv)
  have ok: "fst (carp_ht_del h k) = Ok" using hk ne by (simp add: carp_ht_del_closed Let_def)
  with found carp_ht_del_get [OF wf, of k] show ?thesis
    by (cases "carp_ht_del h k") simp
qed

lemma carp_ht_init_wf:
  assumes "carp_ht_init cap sz h = Some (Ok, h')"
  shows "carp_ht_wf h' \<and> carp_ht_in_use h' = 0"
proof -
  have "0 < sz" "sz \<le> cap" "h' = h\<lparr>ht_size := sz, ht_buckets := replicate sz []\<rparr>"
    using assms by (auto simp: carp_ht_init_def split: if_splits)
  then show ?thesis
    by (simp add: carp_ht_wf_def carp_ht_in_use_def)
qed

lemma carp_ht_used_exact:
  assumes "carp_ht_in_use h * 100 div ht_size h < 2 ^ 15"
  shows "carp_ht_used h = int (carp_ht_in_use h * 100 div ht_size h)"
  using assms
  by (simp add: carp_ht_used_def signed_of_nat signed_take_bit_int_eq_self)

lemma carp_ht_used_le_60:
  assumes "0 < ht_size h" "carp_ht_in_use h * 100 div ht_size h < 2 ^ 15"
  shows "carp_ht_used h \<le> 60 \<longleftrightarrow> carp_ht_in_use h * 100 < 61 * ht_size h"
proof -
  have "carp_ht_in_use h * 100 div ht_size h \<le> 60 \<longleftrightarrow> carp_ht_in_use h * 100 < 61 * ht_size h"
    using div_less_iff_less_mult [OF assms(1), of "carp_ht_in_use h * 100" 61]
    by (simp add: mult.commute less_Suc_eq_le [symmetric])
  then show ?thesis using carp_ht_used_exact [OF assms(2)] by simp
qed

lemma carp_ht_used_load:
  assumes wf: "carp_ht_wf h" and load: "carp_ht_in_use h \<le> ht_size h + 1"
  shows "carp_ht_used h = int (carp_ht_in_use h * 100 div ht_size h) \<and>
         carp_ht_in_use h * 100 div ht_size h \<le> 200"
proof -
  have pos: "0 < ht_size h" by (rule carp_ht_wf_index(1) [OF wf])
  have "carp_ht_in_use h * 100 \<le> 200 * ht_size h" using load pos by simp
  then have "carp_ht_in_use h * 100 div ht_size h \<le> 200 * ht_size h div ht_size h"
    by (rule div_le_mono)
  then have le: "carp_ht_in_use h * 100 div ht_size h \<le> 200" using pos by simp
  then have "carp_ht_in_use h * 100 div ht_size h < 2 ^ 15" by simp
  from carp_ht_used_exact [OF this] le show ?thesis by simp
qed

lemma carp_ht_wf_eval:
  "carp_ht_wf h \<longleftrightarrow>
     0 < ht_size h \<and> length (ht_buckets h) = ht_size h \<and>
     list_all (\<lambda>i. list_all (\<lambda>e. carp_ht_hash (ent_key e) (ht_size h) = i) (ht_buckets h ! i))
       [0..<ht_size h]"
  by (auto simp: carp_ht_wf_def list_all_iff)

lemma store_update_next_get:
  assumes wf: "carp_ht_wf h" and pos: "carp_ht_get_pos h k = Some j"
    and nxt: "Suc j < length (ht_buckets h ! carp_ht_hash k (ht_size h))"
    and ne: "ent_key (ht_buckets h ! carp_ht_hash k (ht_size h) ! Suc j) \<noteq> k"
    and dist: "distinct (map ent_key (ht_buckets h ! carp_ht_hash k (ht_size h)))"
  shows "carp_ht_get (carp_ht_store h k v) (ent_key (ht_buckets h ! carp_ht_hash k (ht_size h) ! Suc j))
       = Some ((ht_buckets h ! carp_ht_hash k (ht_size h) ! Suc j)\<lparr>ent_val := v\<rparr>)"
proof -
  let ?i = "carp_ht_hash k (ht_size h)"
  let ?c = "ht_buckets h ! ?i"
  let ?e = "?c ! Suc j"
  have i: "?i < length (ht_buckets h)" using wf by (rule carp_ht_wf_hash_lt)
  have "?e \<in> set ?c" using nxt by simp
  then have hk: "carp_ht_hash (ent_key ?e) (ht_size h) = ?i"
    using carp_ht_wf_bucket_hash [OF wf] by blast
  have pos0: "0 < ht_size h" by (rule carp_ht_wf_index(1) [OF wf])
  have "ht_buckets (carp_ht_store h k v) ! ?i = ?c[Suc j := ?e\<lparr>ent_val := v\<rparr>]"
    using store_update_next_chain [OF wf pos nxt ne] by (simp add: Let_def)
  then show ?thesis
    using find_distinct_update [OF dist nxt, of "?e\<lparr>ent_val := v\<rparr>"] hk pos0
    by (simp add: carp_ht_get_find)
qed

declare carp_ht_store_def [carp_eval] carp_ht_get_pos_def [carp_eval] carp_ht_get_def [carp_eval]
  carp_ht_used_def [carp_eval] carp_ht_in_use_def [carp_eval] carp_ht_del_def [carp_eval]
  carp_ht_init_def [carp_eval] carp_ht_cleanup_def [carp_eval] carp_ht_wf_eval [carp_eval]

section \<open>Properties\<close>

text \<open>C14: Lookup returns the first entry of the key's bucket that carries the key,
  or nothing. The test \<open>hash >= h->size\<close> inside the walk never fires: the
  bucket index is already reduced modulo the size.\<close>

theorem carp_ht_get_first_match:
  "0 < ht_size h \<Longrightarrow>
   carp_ht_get h k = find (\<lambda>e. ent_key e = k) (ht_buckets h ! carp_ht_hash k (ht_size h))"
  by (rule carp_ht_get_find)

theorem carp_ht_get_first_match_witness:
  "0 < ht_size \<lparr>ht_size = 10, ht_buckets = [[], [], [], [], [], [new_entry ''Maxwell'' 17, new_entry ''llewxaM'' 18], [], [], [], []]\<rparr> \<and>
   carp_ht_get \<lparr>ht_size = 10, ht_buckets = [[], [], [], [], [], [new_entry ''Maxwell'' 17, new_entry ''llewxaM'' 18], [], [], [], []]\<rparr> ''llewxaM''
     = find (\<lambda>e. ent_key e = ''llewxaM'') [new_entry ''Maxwell'' 17, new_entry ''llewxaM'' 18]"
proof -
  let ?h = "\<lparr>ht_size = 10, ht_buckets = [[], [], [], [], [], [new_entry ''Maxwell'' 17, new_entry ''llewxaM'' 18], [], [], [], []]\<rparr>"
  have pos: "0 < ht_size ?h" by simp
  have b: "ht_buckets ?h ! carp_ht_hash ''llewxaM'' (ht_size ?h) = [new_entry ''Maxwell'' 17, new_entry ''llewxaM'' 18]"
    by (simp add: carp_eval)
  from pos carp_ht_get_first_match [OF pos, of "''llewxaM''"] show ?thesis by (simp only: b)
qed

text \<open>C15: Deletion removes only the first entry with the key: on a well-formed
  table whose bucket holds the key twice or more (as after C6), del reports
  success and get still finds the key.\<close>

theorem carp_ht_del_duplicate_survives:
  assumes "carp_ht_wf h"
    and "2 \<le> length (filter (\<lambda>e. ent_key e = k) (ht_buckets h ! carp_ht_hash k (ht_size h)))"
  shows "\<exists>h'. carp_ht_del h k = (Ok, h') \<and> carp_ht_get h' k \<noteq> None"
  by (rule carp_ht_del_dup [OF assms])

theorem carp_ht_del_duplicate_survives_witness:
  "carp_ht_wf \<lparr>ht_size = 3, ht_buckets = [[], [new_entry ''a'' 1], [new_entry ''b'' 2, new_entry ''b'' 2]]\<rparr> \<and>
   2 \<le> length (filter (\<lambda>e. ent_key e = ''b'') ([[], [new_entry ''a'' 1], [new_entry ''b'' 2, new_entry ''b'' 2]] ! carp_ht_hash ''b'' 3)) \<and>
   (\<exists>h'. carp_ht_del \<lparr>ht_size = 3, ht_buckets = [[], [new_entry ''a'' 1], [new_entry ''b'' 2, new_entry ''b'' 2]]\<rparr> ''b'' = (Ok, h') \<and>
         carp_ht_get h' ''b'' \<noteq> None)"
proof -
  let ?h = "\<lparr>ht_size = 3, ht_buckets = [[], [new_entry ''a'' 1], [new_entry ''b'' 2, new_entry ''b'' 2]]\<rparr>"
  have hyps: "carp_ht_wf ?h"
    "2 \<le> length (filter (\<lambda>e. ent_key e = ''b'') (ht_buckets ?h ! carp_ht_hash ''b'' (ht_size ?h)))"
    by (simp_all add: carp_eval)
  from hyps carp_ht_del_duplicate_survives [OF hyps] show ?thesis by simp
qed

text \<open>C16: Deleting a key its bucket does not hold fails with \<open>EmptyBucket\<close> (status
  1) when the bucket is empty and with \<open>NotFound\<close> (status 2) otherwise, and leaves
  the table unchanged.\<close>

theorem carp_ht_del_missing:
  "\<not> has_key k (ht_buckets h ! carp_ht_hash k (ht_size h)) \<Longrightarrow>
   carp_ht_del h k =
     ((if ht_buckets h ! carp_ht_hash k (ht_size h) = [] then Empty_bucket else Not_found), h)"
  by (simp add: carp_ht_del_closed Let_def)

theorem carp_ht_del_missing_witness:
  "\<not> has_key ''a'' ([[], [], [], [], [], [new_entry ''Maxwell'' 17], [], [], [], []] ! carp_ht_hash ''a'' 10) \<and>
   carp_ht_del \<lparr>ht_size = 10, ht_buckets = [[], [], [], [], [], [new_entry ''Maxwell'' 17], [], [], [], []]\<rparr> ''a''
     = (Empty_bucket, \<lparr>ht_size = 10, ht_buckets = [[], [], [], [], [], [new_entry ''Maxwell'' 17], [], [], [], []]\<rparr>)"
proof -
  let ?h = "\<lparr>ht_size = 10, ht_buckets = [[], [], [], [], [], [new_entry ''Maxwell'' 17], [], [], [], []]\<rparr>"
  have hyp: "\<not> has_key ''a'' (ht_buckets ?h ! carp_ht_hash ''a'' (ht_size ?h))"
    by (simp add: carp_eval has_key_def)
  with carp_ht_del_missing [OF hyp] show ?thesis by (simp add: carp_eval)
qed

text \<open>C17: A successful deletion keeps the table well formed, keeps its size and
  removes exactly one entry.\<close>

theorem carp_ht_del_ok:
  assumes wf: "carp_ht_wf h" and del: "carp_ht_del h k = (Ok, h')"
  shows "carp_ht_wf h' \<and> ht_size h' = ht_size h \<and> Suc (carp_ht_in_use h') = carp_ht_in_use h"
  using carp_ht_del_wf [OF wf, of k] carp_ht_del_size(1) [of h k] carp_ht_del_in_use [OF wf, of k] del
  by simp

theorem carp_ht_del_ok_witness:
  "carp_ht_wf \<lparr>ht_size = 10, ht_buckets = [[], [], [], [], [], [new_entry ''Maxwell'' 17], [], [], [], []]\<rparr> \<and>
   carp_ht_del \<lparr>ht_size = 10, ht_buckets = [[], [], [], [], [], [new_entry ''Maxwell'' 17], [], [], [], []]\<rparr> ''Maxwell''
     = (Ok, \<lparr>ht_size = 10, ht_buckets = replicate 10 []\<rparr>) \<and>
   carp_ht_in_use \<lparr>ht_size = 10, ht_buckets = replicate 10 []\<rparr> = 0"
proof -
  let ?h = "\<lparr>ht_size = 10, ht_buckets = [[], [], [], [], [], [new_entry ''Maxwell'' 17], [], [], [], []]\<rparr>"
  let ?e = "\<lparr>ht_size = 10, ht_buckets = replicate 10 []\<rparr>"
  have hyps: "carp_ht_wf ?h" "carp_ht_del ?h ''Maxwell'' = (Ok, ?e)" by (simp_all add: carp_eval)
  from carp_ht_del_ok [OF hyps] hyps show ?thesis by (simp add: carp_eval)
qed

text \<open>C18: A successful init gives a well-formed empty table of the requested size:
  occupancy 0 and no key found.\<close>

theorem carp_ht_init_ok:
  assumes "carp_ht_init cap sz h = Some (Ok, h')"
  shows "carp_ht_wf h' \<and> ht_size h' = sz \<and> carp_ht_used h' = 0 \<and> carp_ht_get h' k = None"
proof -
  have d: "0 < sz" "h' = h\<lparr>ht_size := sz, ht_buckets := replicate sz []\<rparr>"
    using assms by (auto simp: carp_ht_init_def split: if_splits)
  then have "carp_ht_wf h'" "carp_ht_in_use h' = 0" "carp_ht_hash k sz < sz"
    by (simp_all add: carp_ht_wf_def carp_ht_in_use_def carp_ht_hash_lt)
  with d show ?thesis by (simp add: carp_ht_used_def carp_ht_get_find)
qed

theorem carp_ht_init_ok_witness:
  "carp_ht_init 100 10 \<lparr>ht_size = 0, ht_buckets = []\<rparr> = Some (Ok, \<lparr>ht_size = 10, ht_buckets = replicate 10 []\<rparr>) \<and>
   carp_ht_wf \<lparr>ht_size = 10, ht_buckets = replicate 10 []\<rparr> \<and> carp_ht_used \<lparr>ht_size = 10, ht_buckets = replicate 10 []\<rparr> = 0 \<and>
   carp_ht_get \<lparr>ht_size = 10, ht_buckets = replicate 10 []\<rparr> ''a'' = None"
proof -
  have hyp: "carp_ht_init 100 10 \<lparr>ht_size = 0, ht_buckets = []\<rparr> = Some (Ok, \<lparr>ht_size = 10, ht_buckets = replicate 10 []\<rparr>)"
    by (simp add: carp_ht_init_def)
  with carp_ht_init_ok [OF hyp, of "''a''"] show ?thesis by simp
qed

text \<open>C19: When the bucket array cannot be allocated, init reports the failure but
  has already stored the requested size: the table claims \<open>size\<close> buckets and has
  none, and is not well formed.\<close>

theorem carp_ht_init_failure:
  assumes "0 < sz" and "cap < sz"
  shows "\<exists>h'. carp_ht_init cap sz h = Some (Alloc_failure, h') \<and> ht_size h' = sz \<and>
    ht_buckets h' = [] \<and> \<not> carp_ht_wf h'"
  using assms by (simp add: carp_ht_init_def carp_ht_wf_def)

theorem carp_ht_init_failure_witness:
  "0 < (10::nat) \<and> (5::nat) < 10 \<and>
   (\<exists>h'. carp_ht_init 5 10 \<lparr>ht_size = 0, ht_buckets = []\<rparr> = Some (Alloc_failure, h') \<and> ht_size h' = 10 \<and>
      ht_buckets h' = [] \<and> \<not> carp_ht_wf h')"
proof -
  have hyps: "0 < (10::nat)" "(5::nat) < 10" by simp_all
  with carp_ht_init_failure [OF hyps, of "\<lparr>ht_size = 0, ht_buckets = []\<rparr>"] show ?thesis by simp
qed

text \<open>C20: Under the load invariant the occupancy percentage is exact: the
  truncation of \<open>in_use * 100 / size\<close> to \<open>short\<close> loses nothing, and the
  value is at most 200.\<close>

theorem carp_ht_used_bounded:
  assumes wf: "carp_ht_wf h" and load: "carp_ht_in_use h \<le> ht_size h + 1"
  shows "carp_ht_used h = int (carp_ht_in_use h * 100 div ht_size h) \<and> carp_ht_used h \<le> 200"
  using carp_ht_used_load [OF wf load] by simp

theorem carp_ht_used_bounded_witness:
  "carp_ht_wf \<lparr>ht_size = 3, ht_buckets = [[], [new_entry ''a'' 1], [new_entry ''b'' 2, new_entry ''b'' 2]]\<rparr> \<and>
   carp_ht_in_use \<lparr>ht_size = 3, ht_buckets = [[], [new_entry ''a'' 1], [new_entry ''b'' 2, new_entry ''b'' 2]]\<rparr> \<le> 3 + 1 \<and>
   carp_ht_used \<lparr>ht_size = 3, ht_buckets = [[], [new_entry ''a'' 1], [new_entry ''b'' 2, new_entry ''b'' 2]]\<rparr> = 100"
proof -
  let ?h = "\<lparr>ht_size = 3, ht_buckets = [[], [new_entry ''a'' 1], [new_entry ''b'' 2, new_entry ''b'' 2]]\<rparr>"
  have hyps: "carp_ht_wf ?h" "carp_ht_in_use ?h \<le> ht_size ?h + 1" by (simp_all add: carp_eval)
  with carp_ht_used_bounded [OF hyps] show ?thesis by (simp add: carp_eval)
qed

end
