(* ===== verification/Carp_Set.thy ===== *)
theory Carp_Set
  imports Carp_Table
begin

text \<open>
  Insertion and growth, the recursive core of \<open>carp_ht.c\<close>: \<open>carp_ht_set\<close>
  (lines 120--160) and \<open>carp_ht_resize\<close> (lines 178--206) call each other. When
  the occupancy exceeds 60\<percent>, set resizes the table and calls itself again,
  then falls through to the store of lines 132--159 (\<open>carp_ht_store\<close>) a second
  time; resize re-inserts every node into a fresh table of size \<open>2 * size + 1\<close>
  through set, ignoring set's status, and adopts the new bucket array under the
  size it computed before the migration. The three functions are defined together
  with a fuel argument (\<open>carp_ht_set_f\<close>, \<open>carp_ht_resize_f\<close> and the
  migration loop \<open>carp_ht_migrate_f\<close>), fuel being spent only where a call
  works on a grown table; the allocator satisfies requests of up to \<open>cap\<close>
  bucket pointers. \<open>carp_ht_set\<close> and \<open>carp_ht_resize\<close> run with fuel
  \<open>cap\<close>, which is always enough (\<open>carp_ht_set_terminates\<close>): every call on a
  grown table has a larger size, and no array of more than \<open>cap\<close> buckets is
  ever obtained. The lemmas characterise each branch, show that resize is a
  rehash by repeated stores when no nested resize can happen, and that a table
  with at most \<open>size + 1\<close> entries stays so and stays well formed. \<close>

section \<open>Definitions\<close>

text \<open>\<open>carp_ht_set\<close>: \<open>if (carp_ht_used(h) > 60) { if (carp_ht_resize(h) == 1)
  return 1; else if (carp_ht_set(h, key, value) != 0) return 1; }\<close> and then the
  store, also after a successful resize and inner set. \<open>carp_ht_resize\<close>:
  \<open>newh.buckets = calloc(newsize, ...)\<close>, the loop over the old buckets calling
  \<open>carp_ht_set(&newh, ...)\<close>, then \<open>h->size = newsize; h->buckets = newh.buckets\<close>.\<close>

fun carp_ht_set_f :: "nat \<Rightarrow> nat \<Rightarrow> carp_ht \<Rightarrow> string \<Rightarrow> long_long \<Rightarrow> (carp_status \<times> carp_ht) option"
and carp_ht_resize_f :: "nat \<Rightarrow> nat \<Rightarrow> carp_ht \<Rightarrow> (carp_status \<times> carp_ht) option"
and carp_ht_migrate_f :: "nat \<Rightarrow> nat \<Rightarrow> carp_ht \<Rightarrow> chain \<Rightarrow> carp_ht option"
where
  "carp_ht_set_f fuel cap h k v =
     (if 60 < carp_ht_used h then
        (case carp_ht_resize_f fuel cap h of
           None \<Rightarrow> None
         | Some (st, h1) \<Rightarrow>
             if st \<noteq> Ok then Some (Alloc_failure, h1)
             else (case fuel of
                     0 \<Rightarrow> None
                   | Suc f \<Rightarrow>
                       (case carp_ht_set_f f cap h1 k v of
                          None \<Rightarrow> None
                        | Some (st2, h2) \<Rightarrow>
                            if st2 \<noteq> Ok then Some (Alloc_failure, h2)
                            else Some (Ok, carp_ht_store h2 k v))))
      else Some (Ok, carp_ht_store h k v))"
| "carp_ht_resize_f fuel cap h =
     (let newsize = 2 * ht_size h + 1
      in if cap < newsize then Some (Alloc_failure, h)
         else (case fuel of
                 0 \<Rightarrow> None
               | Suc f \<Rightarrow>
                   (case carp_ht_migrate_f f cap \<lparr>ht_size = newsize, ht_buckets = replicate newsize []\<rparr>
                           (concat (take (ht_size h) (ht_buckets h))) of
                      None \<Rightarrow> None
                    | Some newh \<Rightarrow> Some (Ok, h\<lparr>ht_size := newsize, ht_buckets := ht_buckets newh\<rparr>))))"
| "carp_ht_migrate_f fuel cap newh [] = Some newh"
| "carp_ht_migrate_f fuel cap newh (e # es) =
     (case carp_ht_set_f fuel cap newh (ent_key e) (ent_val e) of
        None \<Rightarrow> None
      | Some (_, newh') \<Rightarrow> carp_ht_migrate_f fuel cap newh' es)"

text \<open>The empty table of \<open>n\<close> buckets that resize migrates into.\<close>

definition carp_ht_empty :: "nat \<Rightarrow> carp_ht" where
  "carp_ht_empty n = \<lparr>ht_size = n, ht_buckets = replicate n []\<rparr>"

text \<open>Reference: re-inserting the entries \<open>es\<close> one by one with the store.\<close>

definition carp_ht_rehash :: "nat \<Rightarrow> chain \<Rightarrow> carp_ht" where
  "carp_ht_rehash n es = foldl (\<lambda>t e. carp_ht_store t (ent_key e) (ent_val e)) (carp_ht_empty n) es"

text \<open>The functions as the program calls them: fuel \<open>cap\<close>.\<close>

definition carp_ht_set :: "nat \<Rightarrow> carp_ht \<Rightarrow> string \<Rightarrow> long_long \<Rightarrow> (carp_status \<times> carp_ht) option" where
  "carp_ht_set cap h k v = carp_ht_set_f cap cap h k v"

definition carp_ht_resize :: "nat \<Rightarrow> carp_ht \<Rightarrow> (carp_status \<times> carp_ht) option" where
  "carp_ht_resize cap h = carp_ht_resize_f cap cap h"

text \<open>The keys stored anywhere in the bucket array.\<close>

definition carp_ht_keys :: "carp_ht \<Rightarrow> string set" where
  "carp_ht_keys h = ent_key ` set (concat (ht_buckets h))"

text \<open>The load invariant of the tables a program can reach: well formed, and at
  most one entry more than buckets.\<close>

definition carp_ht_inv :: "carp_ht \<Rightarrow> bool" where
  "carp_ht_inv h \<longleftrightarrow> carp_ht_wf h \<and> carp_ht_in_use h \<le> ht_size h + 1"

section \<open>Lemmas\<close>

declare carp_ht_set_f.simps [simp del] carp_ht_resize_f.simps [simp del]

lemma carp_ht_resize_f_Ok:
  assumes "carp_ht_resize_f fuel cap h = Some (Ok, h1)"
  shows "ht_size h1 = 2 * ht_size h + 1 \<and> 2 * ht_size h + 1 \<le> cap \<and> fuel \<noteq> 0"
  using assms
  by (auto simp: carp_ht_resize_f.simps [of fuel cap h] Let_def split: if_splits nat.splits option.splits)

lemma carp_ht_resize_f_fail:
  assumes "carp_ht_resize_f fuel cap h = Some (st, h1)" and "st \<noteq> Ok"
  shows "st = Alloc_failure \<and> h1 = h"
  using assms
  by (auto simp: carp_ht_resize_f.simps [of fuel cap h] Let_def split: if_splits nat.splits option.splits)

lemma carp_ht_fuel_enough:
  "cap < fuel + ht_size h \<longrightarrow>
     (\<exists>r. carp_ht_set_f fuel cap h k v = Some r \<and> ht_size h \<le> ht_size (snd r))"
  "cap < fuel + ht_size h \<longrightarrow>
     (\<exists>r. carp_ht_resize_f fuel cap h = Some r \<and> ht_size h \<le> ht_size (snd r))"
  "cap < fuel + ht_size t \<longrightarrow>
     (\<exists>t'. carp_ht_migrate_f fuel cap t es = Some t' \<and> ht_size t \<le> ht_size t')"
proof (induction fuel cap h k v and fuel cap h and fuel cap t es
       rule: carp_ht_set_f_carp_ht_resize_f_carp_ht_migrate_f.induct)
  case (1 fuel cap h k v)
  show ?case
  proof
    assume E: "cap < fuel + ht_size h"
    show "\<exists>r. carp_ht_set_f fuel cap h k v = Some r \<and> ht_size h \<le> ht_size (snd r)"
    proof (cases "60 < carp_ht_used h")
      case False
      then show ?thesis by (simp add: carp_ht_set_f.simps [of fuel cap h k v])
    next
      case used: True
      from "1.IH"(1) [OF used] E obtain st h1
        where res: "carp_ht_resize_f fuel cap h = Some (st, h1)" and sz1: "ht_size h \<le> ht_size h1"
        by auto
      show ?thesis
      proof (cases "st = Ok")
        case False
        with used res sz1 show ?thesis by (simp add: carp_ht_set_f.simps [of fuel cap h k v])
      next
        case True
        with res have shape: "ht_size h1 = 2 * ht_size h + 1" "2 * ht_size h + 1 \<le> cap" "fuel \<noteq> 0"
          using carp_ht_resize_f_Ok by blast+
        then obtain f where f: "fuel = Suc f" by (cases fuel) auto
        have "cap < f + ht_size h1" using E shape f by simp
        with "1.IH"(2) [OF used res refl _ f] True obtain st2 h2
          where rec: "carp_ht_set_f f cap h1 k v = Some (st2, h2)" and sz2: "ht_size h1 \<le> ht_size h2"
          by auto
        show ?thesis
          unfolding carp_ht_set_f.simps [of fuel cap h k v]
          using used res True f rec sz1 sz2 by simp
      qed
    qed
  qed
next
  case (2 fuel cap h)
  show ?case
  proof
    assume E: "cap < fuel + ht_size h"
    show "\<exists>r. carp_ht_resize_f fuel cap h = Some r \<and> ht_size h \<le> ht_size (snd r)"
    proof (cases "cap < 2 * ht_size h + 1")
      case True
      then show ?thesis by (simp add: carp_ht_resize_f.simps [of fuel cap h])
    next
      case False
      then obtain f where f: "fuel = Suc f" using E by (cases fuel) auto
      have "cap < f + ht_size \<lparr>ht_size = 2 * ht_size h + 1, ht_buckets = replicate (2 * ht_size h + 1) []\<rparr>"
        using E f by simp
      with "2.IH" [OF refl False f] obtain nh
        where "carp_ht_migrate_f f cap \<lparr>ht_size = 2 * ht_size h + 1, ht_buckets = replicate (2 * ht_size h + 1) []\<rparr>
                 (concat (take (ht_size h) (ht_buckets h))) = Some nh"
        by auto
      with False f show ?thesis
        unfolding carp_ht_resize_f.simps [of fuel cap h] by simp
    qed
  qed
next
  case (3 fuel cap newh)
  then show ?case by simp
next
  case (4 fuel cap newh e es)
  show ?case
  proof
    assume E: "cap < fuel + ht_size newh"
    with "4.IH"(1) obtain x t1 where s: "carp_ht_set_f fuel cap newh (ent_key e) (ent_val e) = Some (x, t1)"
      and sz: "ht_size newh \<le> ht_size t1" by auto
    with E "4.IH"(2) [OF s refl] obtain t' where "carp_ht_migrate_f fuel cap t1 es = Some t'"
      and "ht_size t1 \<le> ht_size t'" by auto
    with s sz show "\<exists>t'. carp_ht_migrate_f fuel cap newh (e # es) = Some t' \<and> ht_size newh \<le> ht_size t'"
      by auto
  qed
qed


lemma carp_ht_set_f_plain:
  "carp_ht_used h \<le> 60 \<Longrightarrow> carp_ht_set_f fuel cap h k v = Some (Ok, carp_ht_store h k v)"
  by (simp add: carp_ht_set_f.simps [of fuel cap h k v])

lemma carp_ht_set_f_resize_fail:
  "60 < carp_ht_used h \<Longrightarrow> cap < 2 * ht_size h + 1 \<Longrightarrow>
   carp_ht_set_f fuel cap h k v = Some (Alloc_failure, h)"
  by (simp add: carp_ht_set_f.simps [of fuel cap h k v] carp_ht_resize_f.simps [of fuel cap h])

lemma carp_ht_set_f_resize_ok:
  assumes "60 < carp_ht_used h" "carp_ht_resize_f (Suc f) cap h = Some (Ok, h1)"
  shows "carp_ht_set_f (Suc f) cap h k v =
     (case carp_ht_set_f f cap h1 k v of
        None \<Rightarrow> None
      | Some (st2, h2) \<Rightarrow> if st2 \<noteq> Ok then Some (Alloc_failure, h2) else Some (Ok, carp_ht_store h2 k v))"
  using assms by (simp add: carp_ht_set_f.simps [of "Suc f" cap h k v])

lemma carp_ht_used_small:
  assumes "0 < ht_size h" "carp_ht_in_use h * 100 < 61 * ht_size h"
  shows "carp_ht_used h \<le> 60"
proof -
  have "carp_ht_in_use h * 100 div ht_size h < 61"
    using assms by (simp add: div_less_iff_less_mult mult.commute)
  then show ?thesis using carp_ht_used_le_60 [OF assms(1)] assms(2) by simp
qed

lemma carp_ht_migrate_f_rehash:
  assumes "carp_ht_wf t" "100 * (carp_ht_in_use t + length es) < 61 * ht_size t + 100"
  shows "carp_ht_migrate_f f cap t es
       = Some (foldl (\<lambda>t e. carp_ht_store t (ent_key e) (ent_val e)) t es)"
  using assms
proof (induction es arbitrary: t)
  case Nil
  then show ?case by simp
next
  case (Cons e es)
  have pos: "0 < ht_size t" using Cons.prems(1) by (simp add: carp_ht_wf_def)
  have "carp_ht_in_use t * 100 < 61 * ht_size t" using Cons.prems(2) by simp
  then have plain: "carp_ht_used t \<le> 60" by (rule carp_ht_used_small [OF pos])
  let ?t1 = "carp_ht_store t (ent_key e) (ent_val e)"
  have "carp_ht_wf ?t1" by (rule carp_ht_store_wf [OF Cons.prems(1)])
  moreover have "100 * (carp_ht_in_use ?t1 + length es) < 61 * ht_size ?t1 + 100"
    using carp_ht_store_in_use [OF Cons.prems(1), of "ent_key e" "ent_val e"] Cons.prems(2) by simp
  ultimately have "carp_ht_migrate_f f cap ?t1 es
      = Some (foldl (\<lambda>t e. carp_ht_store t (ent_key e) (ent_val e)) ?t1 es)"
    by (rule Cons.IH)
  then show ?case by (simp add: carp_ht_set_f_plain [OF plain])
qed


lemma carp_ht_empty_wf: "0 < n \<Longrightarrow> carp_ht_wf (carp_ht_empty n)"
  by (simp add: carp_ht_wf_def carp_ht_empty_def)

lemma carp_ht_empty_in_use [simp]: "carp_ht_in_use (carp_ht_empty n) = 0"
  by (simp add: carp_ht_in_use_def carp_ht_empty_def)

lemma carp_ht_empty_size [simp]: "ht_size (carp_ht_empty n) = n"
  by (simp add: carp_ht_empty_def)

lemma foldl_store_props:
  assumes "carp_ht_wf t"
  shows "carp_ht_wf (foldl (\<lambda>t e. carp_ht_store t (ent_key e) (ent_val e)) t es) \<and>
         ht_size (foldl (\<lambda>t e. carp_ht_store t (ent_key e) (ent_val e)) t es) = ht_size t \<and>
         carp_ht_in_use (foldl (\<lambda>t e. carp_ht_store t (ent_key e) (ent_val e)) t es)
           \<le> carp_ht_in_use t + length es"
  using assms
proof (induction es arbitrary: t)
  case Nil
  then show ?case by simp
next
  case (Cons e es)
  let ?t1 = "carp_ht_store t (ent_key e) (ent_val e)"
  have "carp_ht_wf ?t1" by (rule carp_ht_store_wf [OF Cons.prems])
  from Cons.IH [OF this] carp_ht_store_in_use [OF Cons.prems, of "ent_key e" "ent_val e"]
  show ?case by simp
qed

lemma carp_ht_rehash_props:
  assumes "0 < n"
  shows "carp_ht_wf (carp_ht_rehash n es) \<and> ht_size (carp_ht_rehash n es) = n \<and>
         carp_ht_in_use (carp_ht_rehash n es) \<le> length es"
  using foldl_store_props [OF carp_ht_empty_wf [OF assms], of es]
  by (simp add: carp_ht_rehash_def)

lemma carp_ht_in_use_entries:
  "carp_ht_in_use h = length (concat (take (ht_size h) (ht_buckets h)))"
  by (simp add: carp_ht_in_use_def length_concat)

lemma carp_ht_resize_f_rehash:
  assumes wf: "carp_ht_wf h" and load: "carp_ht_in_use h \<le> ht_size h + 1"
    and mem: "2 * ht_size h + 1 \<le> cap"
  shows "carp_ht_resize_f (Suc f) cap h =
     Some (Ok, h\<lparr>ht_size := 2 * ht_size h + 1,
                 ht_buckets := ht_buckets (carp_ht_rehash (2 * ht_size h + 1)
                                 (concat (take (ht_size h) (ht_buckets h))))\<rparr>)"
proof -
  let ?n = "2 * ht_size h + 1"
  let ?es = "concat (take (ht_size h) (ht_buckets h))"
  have "100 * (carp_ht_in_use (carp_ht_empty ?n) + length ?es) < 61 * ht_size (carp_ht_empty ?n) + 100"
    using load by (simp add: carp_ht_in_use_entries [symmetric])
  from carp_ht_migrate_f_rehash [OF carp_ht_empty_wf this, of f cap]
  have "carp_ht_migrate_f f cap (carp_ht_empty ?n) ?es = Some (carp_ht_rehash ?n ?es)"
    by (simp add: carp_ht_rehash_def)
  with mem show ?thesis
    by (simp add: carp_ht_resize_f.simps [of "Suc f" cap h] carp_ht_empty_def)
qed

lemma carp_ht_resize_f_Ok_rehash:
  assumes wf: "carp_ht_wf h" and load: "carp_ht_in_use h \<le> ht_size h + 1"
    and res: "carp_ht_resize_f fuel cap h = Some (Ok, h1)"
  shows "carp_ht_wf h1 \<and> ht_size h1 = 2 * ht_size h + 1 \<and> carp_ht_in_use h1 \<le> carp_ht_in_use h"
proof -
  from carp_ht_resize_f_Ok [OF res] obtain f where f: "fuel = Suc f"
    and mem: "2 * ht_size h + 1 \<le> cap" by (cases fuel) auto
  let ?r = "carp_ht_rehash (2 * ht_size h + 1) (concat (take (ht_size h) (ht_buckets h)))"
  have h1: "h1 = h\<lparr>ht_size := 2 * ht_size h + 1, ht_buckets := ht_buckets ?r\<rparr>"
    using carp_ht_resize_f_rehash [OF wf load mem, of f] res f by simp
  have rp: "carp_ht_wf ?r" "ht_size ?r = 2 * ht_size h + 1"
    "carp_ht_in_use ?r \<le> length (concat (take (ht_size h) (ht_buckets h)))"
    using carp_ht_rehash_props [of "2 * ht_size h + 1" "concat (take (ht_size h) (ht_buckets h))"]
    by simp_all
  then have r: "carp_ht_wf ?r" "ht_size ?r = 2 * ht_size h + 1"
    "carp_ht_in_use ?r \<le> carp_ht_in_use h"
    by (simp_all only: carp_ht_in_use_entries [of h])
  have "carp_ht_wf h1" using r(1,2) h1 by (simp add: carp_ht_wf_def)
  moreover have "carp_ht_in_use h1 = carp_ht_in_use ?r" using r(2) h1 by (simp add: carp_ht_in_use_def)
  ultimately show ?thesis using r h1 by simp
qed


lemma carp_ht_set_f_SomeE:
  assumes "carp_ht_set_f fuel cap h k v = Some (st, h')"
  obtains (plain) "carp_ht_used h \<le> 60" "st = Ok" "h' = carp_ht_store h k v"
  | (fail) "60 < carp_ht_used h" "carp_ht_resize_f fuel cap h = Some (Alloc_failure, h)"
      "st = Alloc_failure" "h' = h"
  | (grown) f h1 st2 h2 where "60 < carp_ht_used h" "fuel = Suc f"
      "carp_ht_resize_f fuel cap h = Some (Ok, h1)" "carp_ht_set_f f cap h1 k v = Some (st2, h2)"
      "if st2 = Ok then st = Ok \<and> h' = carp_ht_store h2 k v else st = Alloc_failure \<and> h' = h2"
proof (cases "60 < carp_ht_used h")
  case False
  with assms have "st = Ok" "h' = carp_ht_store h k v" by (simp_all add: carp_ht_set_f_plain)
  with False show ?thesis by (intro plain) simp_all
next
  case used: True
  have "carp_ht_resize_f fuel cap h \<noteq> None"
  proof
    assume "carp_ht_resize_f fuel cap h = None"
    with used have "carp_ht_set_f fuel cap h k v = None"
      by (simp add: carp_ht_set_f.simps [of fuel cap h k v])
    with assms show False by simp
  qed
  then obtain st1 h1 where res: "carp_ht_resize_f fuel cap h = Some (st1, h1)" by auto
  show ?thesis
  proof (cases "st1 = Ok")
    case False
    with res have res': "carp_ht_resize_f fuel cap h = Some (Alloc_failure, h)"
      using carp_ht_resize_f_fail by blast
    have "carp_ht_set_f fuel cap h k v = Some (Alloc_failure, h)"
      using used res' by (simp add: carp_ht_set_f.simps [of fuel cap h k v])
    with assms have "st = Alloc_failure" "h' = h" by simp_all
    with used res' show ?thesis by (rule fail)
  next
    case True
    with res obtain f where f: "fuel = Suc f" using carp_ht_resize_f_Ok by (cases fuel) blast+
    have eq: "carp_ht_set_f fuel cap h k v =
       (case carp_ht_set_f f cap h1 k v of
          None \<Rightarrow> None
        | Some (st2, h2) \<Rightarrow> if st2 \<noteq> Ok then Some (Alloc_failure, h2) else Some (Ok, carp_ht_store h2 k v))"
      using carp_ht_set_f_resize_ok [OF used] res True f by simp
    obtain st2 h2 where rec: "carp_ht_set_f f cap h1 k v = Some (st2, h2)"
      using assms eq by (cases "carp_ht_set_f f cap h1 k v") auto
    have "if st2 = Ok then st = Ok \<and> h' = carp_ht_store h2 k v else st = Alloc_failure \<and> h' = h2"
      using assms eq rec by (auto split: if_splits)
    with used f res True rec show ?thesis by (intro grown) simp_all
  qed
qed


lemma carp_ht_used_bound:
  assumes "0 < ht_size h" "carp_ht_in_use h \<le> ht_size h + 1"
  shows "carp_ht_in_use h * 100 div ht_size h < 2 ^ 15"
proof -
  have "carp_ht_in_use h * 100 < 32768 * ht_size h" using assms by simp
  then show ?thesis using assms(1) by (simp add: div_less_iff_less_mult mult.commute)
qed

lemma carp_ht_plain_room:
  assumes "carp_ht_wf h" "carp_ht_in_use h \<le> ht_size h + 1" "carp_ht_used h \<le> 60"
  shows "carp_ht_in_use h < ht_size h"
proof -
  have pos: "0 < ht_size h" using assms(1) by (simp add: carp_ht_wf_def)
  have "carp_ht_in_use h * 100 < 61 * ht_size h"
    using carp_ht_used_le_60 [OF pos carp_ht_used_bound [OF pos assms(2)]] assms(3) by simp
  then show ?thesis by simp
qed

lemma carp_ht_set_f_half:
  assumes wf: "carp_ht_wf h" and half: "2 * carp_ht_in_use h \<le> ht_size h + 1"
    and res: "carp_ht_set_f fuel cap h k v = Some (st, h')"
  shows "carp_ht_wf h' \<and> carp_ht_in_use h' \<le> ht_size h'"
  using res
proof (cases rule: carp_ht_set_f_SomeE)
  case plain
  with wf half have "carp_ht_in_use h < ht_size h" by (intro carp_ht_plain_room) simp_all
  with plain wf show ?thesis
    using carp_ht_store_wf carp_ht_store_in_use [OF wf, of k v] by simp
next
  case fail
  with wf half show ?thesis by (simp add: carp_ht_wf_def)
next
  case (grown f h1 st2 h2)
  have load: "carp_ht_in_use h \<le> ht_size h + 1" using half by simp
  from carp_ht_resize_f_Ok_rehash [OF wf load grown(3)]
  have h1: "carp_ht_wf h1" "ht_size h1 = 2 * ht_size h + 1" "carp_ht_in_use h1 \<le> carp_ht_in_use h"
    by simp_all
  have pos1: "0 < ht_size h1" using h1(1) by (simp add: carp_ht_wf_def)
  have "carp_ht_in_use h1 * 100 < 61 * ht_size h1" using h1(2,3) half by simp
  then have "carp_ht_used h1 \<le> 60" by (rule carp_ht_used_small [OF pos1])
  then have "st2 = Ok" "h2 = carp_ht_store h1 k v"
    using grown(4) by (simp_all add: carp_ht_set_f_plain)
  with grown(5) have h': "h' = carp_ht_store (carp_ht_store h1 k v) k v" by simp
  have a: "carp_ht_in_use (carp_ht_store h1 k v) \<le> Suc (carp_ht_in_use h1)"
    by (rule carp_ht_store_in_use [OF h1(1)])
  have b: "carp_ht_in_use h' \<le> Suc (carp_ht_in_use (carp_ht_store h1 k v))"
    unfolding h' by (rule carp_ht_store_in_use [OF carp_ht_store_wf [OF h1(1)]])
  from a b have "carp_ht_in_use h' \<le> carp_ht_in_use h1 + 2" by linarith
  moreover have "carp_ht_wf h'" using h' h1(1) by (simp add: carp_ht_store_wf)
  moreover have "0 < ht_size h" by (rule carp_ht_wf_index(1) [OF wf])
  ultimately show ?thesis using h' h1 half by simp
qed

lemma carp_ht_set_f_load:
  assumes wf: "carp_ht_wf h" and load: "carp_ht_in_use h \<le> ht_size h + 1"
    and res: "carp_ht_set_f fuel cap h k v = Some (st, h')"
  shows "carp_ht_wf h' \<and> carp_ht_in_use h' \<le> ht_size h' + 1"
  using res
proof (cases rule: carp_ht_set_f_SomeE)
  case plain
  with wf load have "carp_ht_in_use h < ht_size h" by (intro carp_ht_plain_room) simp_all
  with plain wf show ?thesis
    using carp_ht_store_wf carp_ht_store_in_use [OF wf, of k v] by simp
next
  case fail
  with wf load show ?thesis by simp
next
  case (grown f h1 st2 h2)
  from carp_ht_resize_f_Ok_rehash [OF wf load grown(3)]
  have h1: "carp_ht_wf h1" "ht_size h1 = 2 * ht_size h + 1" "carp_ht_in_use h1 \<le> carp_ht_in_use h"
    by simp_all
  have "2 * carp_ht_in_use h1 \<le> ht_size h1 + 1" using h1(2,3) load by simp
  from carp_ht_set_f_half [OF h1(1) this grown(4)]
  have h2: "carp_ht_wf h2" "carp_ht_in_use h2 \<le> ht_size h2" by simp_all
  show ?thesis
  proof (cases "st2 = Ok")
    case True
    with grown(5) have "h' = carp_ht_store h2 k v" by simp
    with h2 show ?thesis using carp_ht_store_wf carp_ht_store_in_use [OF h2(1), of k v] by simp
  next
    case False
    with grown(5) h2 show ?thesis by simp
  qed
qed


lemma carp_ht_used_size0: "ht_size h = 0 \<Longrightarrow> carp_ht_used h = 0"
  by (simp add: carp_ht_used_def)



lemma carp_ht_keys_update:
  "i < length (ht_buckets h) \<Longrightarrow>
   carp_ht_keys (h\<lparr>ht_buckets := (ht_buckets h)[i := c]\<rparr>) \<subseteq> carp_ht_keys h \<union> ent_key ` set c"
  unfolding carp_ht_keys_def by (auto dest: set_list_update_cases)

lemma carp_ht_store_keys:
  assumes "carp_ht_wf h"
  shows "carp_ht_keys (carp_ht_store h k v) \<subseteq> insert k (carp_ht_keys h)"
proof -
  let ?i = "carp_ht_hash k (ht_size h)"
  let ?c = "ht_buckets h ! ?i"
  have i: "?i < length (ht_buckets h)" using assms by (rule carp_ht_wf_hash_lt)
  have c: "ent_key ` set ?c \<subseteq> carp_ht_keys h"
    using i by (force simp: carp_ht_keys_def)
  have "ent_key ` set (take (Suc j) ?c @ set_walk k v (drop (Suc j) ?c)) \<subseteq> insert k (carp_ht_keys h)" for j
  proof -
    have t: "ent_key ` set (take (Suc j) ?c) \<subseteq> carp_ht_keys h"
      using c set_take_subset by (meson image_mono order_trans)
    have d: "ent_key ` set (drop (Suc j) ?c) \<subseteq> carp_ht_keys h"
      using c set_drop_subset by (meson image_mono order_trans)
    have "ent_key ` set (set_walk k v (drop (Suc j) ?c)) \<subseteq> insert k (carp_ht_keys h)"
      using set_walk_key_set [of k v "drop (Suc j) ?c"] d by blast
    with t show ?thesis by auto
  qed
  then have new: "ent_key ` set (case carp_ht_get_pos h k of
           None \<Rightarrow> [new_entry k v]
         | Some j \<Rightarrow> take (Suc j) ?c @ set_walk k v (drop (Suc j) ?c)) \<subseteq> insert k (carp_ht_keys h)"
    by (simp split: option.split)
  have "carp_ht_keys (carp_ht_store h k v) \<subseteq> carp_ht_keys h \<union> ent_key ` set (case carp_ht_get_pos h k of
           None \<Rightarrow> [new_entry k v]
         | Some j \<Rightarrow> take (Suc j) ?c @ set_walk k v (drop (Suc j) ?c))"
    unfolding carp_ht_store_chain by (rule carp_ht_keys_update [OF i])
  with new show ?thesis by blast
qed


lemma carp_ht_wf_has_key:
  assumes "carp_ht_wf h"
  shows "has_key k (ht_buckets h ! carp_ht_hash k (ht_size h)) \<longleftrightarrow> k \<in> carp_ht_keys h"
proof
  assume "has_key k (ht_buckets h ! carp_ht_hash k (ht_size h))"
  then show "k \<in> carp_ht_keys h"
    using carp_ht_wf_hash_lt [OF assms, of k]
    by (force simp: has_key_def carp_ht_keys_def)
next
  assume "k \<in> carp_ht_keys h"
  then obtain c e where c: "c \<in> set (ht_buckets h)" "e \<in> set c" "ent_key e = k"
    by (auto simp: carp_ht_keys_def)
  then obtain i where i: "i < length (ht_buckets h)" "ht_buckets h ! i = c"
    by (auto simp: in_set_conv_nth)
  with assms c have "carp_ht_hash k (ht_size h) = i" by (auto simp: carp_ht_wf_def)
  with i c show "has_key k (ht_buckets h ! carp_ht_hash k (ht_size h))"
    by (auto simp: has_key_def)
qed

lemma foldl_store_keys:
  assumes "carp_ht_wf t"
  shows "carp_ht_keys (foldl (\<lambda>t e. carp_ht_store t (ent_key e) (ent_val e)) t es)
         \<subseteq> carp_ht_keys t \<union> ent_key ` set es"
  using assms
proof (induction es arbitrary: t)
  case Nil
  then show ?case by simp
next
  case (Cons e es)
  let ?t1 = "carp_ht_store t (ent_key e) (ent_val e)"
  have "carp_ht_keys (foldl (\<lambda>t e. carp_ht_store t (ent_key e) (ent_val e)) ?t1 es)
        \<subseteq> carp_ht_keys ?t1 \<union> ent_key ` set es"
    by (rule Cons.IH [OF carp_ht_store_wf [OF Cons.prems]])
  with carp_ht_store_keys [OF Cons.prems, of "ent_key e" "ent_val e"] show ?case by auto
qed

lemma carp_ht_empty_keys [simp]: "carp_ht_keys (carp_ht_empty n) = {}"
  by (simp add: carp_ht_keys_def carp_ht_empty_def)

lemma store_twice_fresh:
  assumes wf: "carp_ht_wf h" and fresh: "k \<notin> carp_ht_keys h"
  shows "ht_buckets (carp_ht_store (carp_ht_store h k v) k v) ! carp_ht_hash k (ht_size h)
       = [new_entry k v, new_entry k v]"
proof -
  let ?i = "carp_ht_hash k (ht_size h)"
  have i: "?i < length (ht_buckets h)" using wf by (rule carp_ht_wf_hash_lt)
  have "carp_ht_get_pos h k = None"
    using fresh carp_ht_wf_has_key [OF wf, of k] by (simp add: carp_ht_get_pos_wf_None [OF wf])
  then have b1: "ht_buckets (carp_ht_store h k v) = (ht_buckets h)[?i := [new_entry k v]]"
    by (simp add: carp_ht_store_chain)
  have "carp_ht_get_pos (carp_ht_store h k v) k = Some 0"
    using b1 i by (simp add: carp_ht_get_pos_def)
  then show ?thesis using b1 i by (simp add: carp_ht_store_chain)
qed

lemma carp_ht_resize_f_Ok_keys:
  assumes wf: "carp_ht_wf h" and load: "carp_ht_in_use h \<le> ht_size h + 1"
    and res: "carp_ht_resize_f fuel cap h = Some (Ok, h1)"
  shows "carp_ht_keys h1 \<subseteq> carp_ht_keys h"
proof -
  from carp_ht_resize_f_Ok [OF res] obtain f where f: "fuel = Suc f"
    and mem: "2 * ht_size h + 1 \<le> cap" by (cases fuel) auto
  let ?n = "2 * ht_size h + 1"
  let ?es = "concat (take (ht_size h) (ht_buckets h))"
  have "h1 = h\<lparr>ht_size := ?n, ht_buckets := ht_buckets (carp_ht_rehash ?n ?es)\<rparr>"
    using carp_ht_resize_f_rehash [OF wf load mem, of f] res f by simp
  then have "carp_ht_keys h1 = carp_ht_keys (carp_ht_rehash ?n ?es)" by (simp add: carp_ht_keys_def)
  also have "\<dots> \<subseteq> ent_key ` set ?es"
    using foldl_store_keys [OF carp_ht_empty_wf, of ?n ?es] by (simp add: carp_ht_rehash_def)
  also have "\<dots> \<subseteq> carp_ht_keys h"
    by (auto simp: carp_ht_keys_def dest: in_set_takeD)
  finally show ?thesis .
qed

lemma carp_ht_set_f_get_fresh:
  "carp_ht_wf h \<Longrightarrow> carp_ht_in_use h \<le> ht_size h + 1 \<Longrightarrow> k \<notin> carp_ht_keys h \<Longrightarrow>
   carp_ht_set_f fuel cap h k v = Some (Ok, h') \<Longrightarrow> carp_ht_get h' k = Some (new_entry k v)"
proof (induction fuel arbitrary: h h')
  case 0
  from "0.prems"(4) show ?case
  proof (cases rule: carp_ht_set_f_SomeE)
    case plain
    with "0.prems"(1,3) show ?thesis
      using store_get_fresh carp_ht_wf_has_key by simp
  qed simp_all
next
  case (Suc fuel)
  note wf = Suc.prems(1) and load = Suc.prems(2) and fresh = Suc.prems(3)
  from Suc.prems(4) show ?case
  proof (cases rule: carp_ht_set_f_SomeE)
    case plain
    with wf fresh show ?thesis using store_get_fresh carp_ht_wf_has_key by simp
  next
    case fail
    then show ?thesis by simp
  next
    case (grown f h1 st2 h2)
    then have f: "f = fuel" and st2: "st2 = Ok" and h': "h' = carp_ht_store h2 k v"
      by (simp_all split: if_splits)
    from carp_ht_resize_f_Ok_rehash [OF wf load grown(3)]
    have h1: "carp_ht_wf h1" "ht_size h1 = 2 * ht_size h + 1" "carp_ht_in_use h1 \<le> carp_ht_in_use h"
      by simp_all
    have load1: "carp_ht_in_use h1 \<le> ht_size h1 + 1" using h1(2,3) load by simp
    have fresh1: "k \<notin> carp_ht_keys h1"
      using carp_ht_resize_f_Ok_keys [OF wf load grown(3)] fresh by blast
    have rec: "carp_ht_set_f fuel cap h1 k v = Some (Ok, h2)" using grown(4) f st2 by simp
    have "carp_ht_get h2 k = Some (new_entry k v)" by (rule Suc.IH [OF h1(1) load1 fresh1 rec])
    moreover have "carp_ht_wf h2" using carp_ht_set_f_load [OF h1(1) load1 rec] by simp
    ultimately show ?thesis using h' store_get_present by simp
  qed
qed

lemma carp_ht_set_f_size_le:
  "carp_ht_set_f fuel cap h k v = Some (st, h') \<Longrightarrow> ht_size h \<le> cap \<Longrightarrow> ht_size h' \<le> cap"
proof (induction fuel arbitrary: h st h')
  case 0
  from "0.prems"(1) show ?case
  proof (cases rule: carp_ht_set_f_SomeE)
    case plain
    with "0.prems"(2) show ?thesis by simp
  next
    case fail
    with "0.prems"(2) show ?thesis by simp
  next
    case (grown f h1 st2 h2)
    then show ?thesis by simp
  qed
next
  case (Suc fuel)
  from Suc.prems(1) show ?case
  proof (cases rule: carp_ht_set_f_SomeE)
    case plain
    with Suc.prems(2) show ?thesis by simp
  next
    case fail
    with Suc.prems(2) show ?thesis by simp
  next
    case (grown f h1 st2 h2)
    then have "ht_size h1 \<le> cap" "f = fuel" using carp_ht_resize_f_Ok by auto
    with grown Suc.IH [of h1 st2 h2] have "ht_size h2 \<le> cap" by simp
    with grown show ?thesis by (simp split: if_splits)
  qed
qed

lemma carp_ht_resize_f_size_le:
  "carp_ht_resize_f fuel cap h = Some (st, h') \<Longrightarrow> ht_size h \<le> cap \<Longrightarrow> ht_size h' \<le> cap"
  by (cases "st = Ok") (auto dest: carp_ht_resize_f_Ok carp_ht_resize_f_fail)

lemma carp_ht_set_resize_twice:
  assumes wf: "carp_ht_wf h" and room: "carp_ht_in_use h \<le> ht_size h"
    and full: "60 < carp_ht_used h" and mem: "2 * ht_size h + 1 \<le> cap"
    and fresh: "k \<notin> carp_ht_keys h"
  shows "\<exists>h'. carp_ht_set cap h k v = Some (Ok, h') \<and>
           ht_size h' = 2 * ht_size h + 1 \<and>
           ht_buckets h' ! carp_ht_hash k (ht_size h') = [new_entry k v, new_entry k v]"
proof -
  obtain f where f: "cap = Suc f" using mem by (cases cap) auto
  have load: "carp_ht_in_use h \<le> ht_size h + 1" using room by simp
  let ?n = "2 * ht_size h + 1"
  let ?es = "concat (take (ht_size h) (ht_buckets h))"
  let ?h1 = "h\<lparr>ht_size := ?n, ht_buckets := ht_buckets (carp_ht_rehash ?n ?es)\<rparr>"
  have res: "carp_ht_resize_f (Suc f) cap h = Some (Ok, ?h1)"
    by (rule carp_ht_resize_f_rehash [OF wf load mem])
  from carp_ht_resize_f_Ok_rehash [OF wf load res]
  have h1: "carp_ht_wf ?h1" "carp_ht_in_use ?h1 \<le> carp_ht_in_use h" by simp_all
  have pos: "0 < ?n" by simp
  have "carp_ht_in_use ?h1 * 100 < 61 * ht_size ?h1"
    using h1(2) room by simp
  moreover have "0 < ht_size ?h1" by simp
  ultimately have plain: "carp_ht_used ?h1 \<le> 60" using carp_ht_used_small by blast
  have "carp_ht_keys ?h1 = carp_ht_keys (carp_ht_rehash ?n ?es)" by (simp add: carp_ht_keys_def)
  also have "\<dots> \<subseteq> ent_key ` set ?es"
    using foldl_store_keys [OF carp_ht_empty_wf [OF pos], of ?es] by (simp add: carp_ht_rehash_def)
  also have "\<dots> \<subseteq> carp_ht_keys h"
    by (auto simp: carp_ht_keys_def dest: in_set_takeD)
  finally have fresh1: "k \<notin> carp_ht_keys ?h1" using fresh by blast
  have "carp_ht_set cap h k v = Some (Ok, carp_ht_store (carp_ht_store ?h1 k v) k v)"
    using carp_ht_set_f_resize_ok [OF full res, of k v] carp_ht_set_f_plain [OF plain] f
    by (simp add: carp_ht_set_def)
  moreover have "ht_buckets (carp_ht_store (carp_ht_store ?h1 k v) k v) ! carp_ht_hash k ?n
      = [new_entry k v, new_entry k v]"
    using store_twice_fresh [OF h1(1) fresh1] by simp
  ultimately show ?thesis by simp
qed

declare carp_ht_set_def [carp_eval] carp_ht_set_f.simps [carp_eval] carp_ht_resize_f.simps [carp_eval]
  carp_ht_resize_def [carp_eval] carp_ht_keys_def [carp_eval] carp_ht_rehash_def [carp_eval]
  carp_ht_empty_def [carp_eval] carp_ht_inv_def [carp_eval]

section \<open>Properties\<close>

text \<open>C1: \<open>carp_ht_set\<close> returns, for every table, key, value and allocator
  capacity: the recursion through resize always ends.\<close>

theorem carp_ht_set_terminates: "\<exists>r. carp_ht_set cap h k v = Some r"
proof (cases "ht_size h = 0")
  case True
  then show ?thesis by (simp add: carp_ht_set_def carp_ht_set_f_plain carp_ht_used_size0)
next
  case False
  then have "cap < cap + ht_size h" by simp
  with carp_ht_fuel_enough(1) [of cap cap h k v] show ?thesis
    by (auto simp: carp_ht_set_def)
qed

text \<open>C2: Round trip for a new key. On a table with the load invariant, after a
  successful set of a key not yet stored, get finds the new entry with the given
  value, also when the set had to resize the table first.\<close>

theorem carp_ht_set_get_fresh:
  assumes "carp_ht_inv h" and "k \<notin> carp_ht_keys h" and "carp_ht_set cap h k v = Some (Ok, h')"
  shows "carp_ht_get h' k = Some (new_entry k v)"
  using assms carp_ht_set_f_get_fresh [of h k cap cap v h']
  by (simp add: carp_ht_inv_def carp_ht_set_def)

theorem carp_ht_set_get_fresh_witness:
  "carp_ht_inv \<lparr>ht_size = 10, ht_buckets = replicate 10 []\<rparr> \<and>
   ''a'' \<notin> carp_ht_keys \<lparr>ht_size = 10, ht_buckets = replicate 10 []\<rparr> \<and>
   carp_ht_set 100 \<lparr>ht_size = 10, ht_buckets = replicate 10 []\<rparr> ''a'' 3
     = Some (Ok, \<lparr>ht_size = 10, ht_buckets = [[new_entry ''a'' 3], [], [], [], [], [], [], [], [], []]\<rparr>) \<and>
   carp_ht_get \<lparr>ht_size = 10, ht_buckets = [[new_entry ''a'' 3], [], [], [], [], [], [], [], [], []]\<rparr> ''a''
     = Some (new_entry ''a'' 3)"
proof -
  let ?h = "\<lparr>ht_size = 10, ht_buckets = replicate 10 []\<rparr>"
  let ?h' = "\<lparr>ht_size = 10, ht_buckets = [[new_entry ''a'' 3], [], [], [], [], [], [], [], [], []]\<rparr>"
  have hyps: "carp_ht_inv ?h" "''a'' \<notin> carp_ht_keys ?h" "carp_ht_set 100 ?h ''a'' 3 = Some (Ok, ?h')"
    by (simp_all add: carp_eval)
  with carp_ht_set_get_fresh [OF hyps] show ?thesis by simp
qed

text \<open>C3: An update is lost. On a table below the resize threshold, setting a key
  that is already stored returns success, but get still finds the old entry with
  its old value: the store writes the value elsewhere (C5) or appends a second
  entry behind the first.\<close>

theorem carp_ht_set_update_lost:
  assumes "carp_ht_wf h" and "carp_ht_used h \<le> 60" and "carp_ht_get h k = Some e"
  shows "\<exists>h'. carp_ht_set cap h k v = Some (Ok, h') \<and> carp_ht_get h' k = Some e"
  using store_get_present [OF assms(1,3), of v] carp_ht_set_f_plain [OF assms(2)]
  by (simp add: carp_ht_set_def)

theorem carp_ht_set_update_lost_witness:
  "carp_ht_wf \<lparr>ht_size = 10, ht_buckets = [new_entry ''a'' 1] # replicate 9 []\<rparr> \<and>
   carp_ht_used \<lparr>ht_size = 10, ht_buckets = [new_entry ''a'' 1] # replicate 9 []\<rparr> \<le> 60 \<and>
   carp_ht_get \<lparr>ht_size = 10, ht_buckets = [new_entry ''a'' 1] # replicate 9 []\<rparr> ''a'' = Some (new_entry ''a'' 1) \<and>
   (\<exists>h'. carp_ht_set 100 \<lparr>ht_size = 10, ht_buckets = [new_entry ''a'' 1] # replicate 9 []\<rparr> ''a'' 2 = Some (Ok, h') \<and>
         carp_ht_get h' ''a'' = Some (new_entry ''a'' 1))"
proof -
  let ?h = "\<lparr>ht_size = 10, ht_buckets = [new_entry ''a'' 1] # replicate 9 []\<rparr>"
  have hyps: "carp_ht_wf ?h" "carp_ht_used ?h \<le> 60" "carp_ht_get ?h ''a'' = Some (new_entry ''a'' 1)"
    by (simp_all add: carp_eval)
  with carp_ht_set_update_lost [OF hyps, of 100 2] show ?thesis by simp
qed

text \<open>C4: A collision destroys a chain. Below the resize threshold, setting a key
  that its bucket does not hold replaces the whole bucket by a one-entry chain
  (the branch for \<open>base == NULL\<close> writes \<open>h->buckets[hash]\<close>), so every
  other key of that bucket is lost, while set reports success.\<close>

theorem carp_ht_set_collision_loses:
  assumes wf: "carp_ht_wf h" and low: "carp_ht_used h \<le> 60"
    and fresh: "\<not> has_key k (ht_buckets h ! carp_ht_hash k (ht_size h))"
    and same: "carp_ht_hash k' (ht_size h) = carp_ht_hash k (ht_size h)" and ne: "k' \<noteq> k"
  shows "\<exists>h'. carp_ht_set cap h k v = Some (Ok, h') \<and> carp_ht_get h' k' = None"
  using store_collision_drops [OF wf fresh same ne, of v] carp_ht_set_f_plain [OF low]
  by (simp add: carp_ht_set_def)

theorem carp_ht_set_collision_loses_witness:
  "carp_ht_wf \<lparr>ht_size = 10, ht_buckets = [[], [], [], [], [], [new_entry ''Maxwell'' 17], [], [], [], []]\<rparr> \<and>
   carp_ht_used \<lparr>ht_size = 10, ht_buckets = [[], [], [], [], [], [new_entry ''Maxwell'' 17], [], [], [], []]\<rparr> \<le> 60 \<and>
   \<not> has_key ''llewxaM'' ([[], [], [], [], [], [new_entry ''Maxwell'' 17], [], [], [], []] ! carp_ht_hash ''llewxaM'' 10) \<and>
   carp_ht_hash ''Maxwell'' 10 = carp_ht_hash ''llewxaM'' 10 \<and>
   carp_ht_get \<lparr>ht_size = 10, ht_buckets = [[], [], [], [], [], [new_entry ''Maxwell'' 17], [], [], [], []]\<rparr> ''Maxwell''
     = Some (new_entry ''Maxwell'' 17) \<and>
   (\<exists>h'. carp_ht_set 100 \<lparr>ht_size = 10, ht_buckets = [[], [], [], [], [], [new_entry ''Maxwell'' 17], [], [], [], []]\<rparr>
            ''llewxaM'' 18 = Some (Ok, h') \<and> carp_ht_get h' ''Maxwell'' = None)"
proof -
  let ?b = "[[], [], [], [], [], [new_entry ''Maxwell'' 17], [], [], [], []]"
  let ?h = "\<lparr>ht_size = 10, ht_buckets = ?b\<rparr>"
  have hyps: "carp_ht_wf ?h" "carp_ht_used ?h \<le> 60"
    "\<not> has_key ''llewxaM'' (ht_buckets ?h ! carp_ht_hash ''llewxaM'' (ht_size ?h))"
    "carp_ht_hash ''Maxwell'' (ht_size ?h) = carp_ht_hash ''llewxaM'' (ht_size ?h)"
    "''Maxwell'' \<noteq> ''llewxaM''"
    by (simp_all add: carp_eval has_key_def)
  have "carp_ht_get ?h ''Maxwell'' = Some (new_entry ''Maxwell'' 17)" by (simp add: carp_eval)
  with carp_ht_set_collision_loses [OF hyps, of 100 18] hyps show ?thesis by simp
qed

text \<open>C5: The value goes to the wrong entry. When the key is found and the entry
  after it has a different key, the inverted \<open>strcmp\<close> test of the chain walk
  writes the new value into that next entry.\<close>

theorem carp_ht_set_update_next:
  assumes wf: "carp_ht_wf h" and low: "carp_ht_used h \<le> 60"
    and pos: "carp_ht_get_pos h k = Some j"
    and nxt: "Suc j < length (ht_buckets h ! carp_ht_hash k (ht_size h))"
    and ne: "ent_key (ht_buckets h ! carp_ht_hash k (ht_size h) ! Suc j) \<noteq> k"
    and dist: "distinct (map ent_key (ht_buckets h ! carp_ht_hash k (ht_size h)))"
  shows "\<exists>h'. carp_ht_set cap h k v = Some (Ok, h') \<and>
    carp_ht_get h' (ent_key (ht_buckets h ! carp_ht_hash k (ht_size h) ! Suc j))
      = Some ((ht_buckets h ! carp_ht_hash k (ht_size h) ! Suc j)\<lparr>ent_val := v\<rparr>)"
  using store_update_next_get [OF wf pos nxt ne dist, of v] carp_ht_set_f_plain [OF low]
  by (simp add: carp_ht_set_def)

theorem carp_ht_set_update_next_witness:
  "carp_ht_wf \<lparr>ht_size = 10, ht_buckets = [[], [], [], [], [], [new_entry ''Maxwell'' 17, new_entry ''llewxaM'' 18], [], [], [], []]\<rparr> \<and>
   carp_ht_used \<lparr>ht_size = 10, ht_buckets = [[], [], [], [], [], [new_entry ''Maxwell'' 17, new_entry ''llewxaM'' 18], [], [], [], []]\<rparr> \<le> 60 \<and>
   carp_ht_get_pos \<lparr>ht_size = 10, ht_buckets = [[], [], [], [], [], [new_entry ''Maxwell'' 17, new_entry ''llewxaM'' 18], [], [], [], []]\<rparr> ''Maxwell'' = Some 0 \<and>
   (\<exists>h'. carp_ht_set 100 \<lparr>ht_size = 10, ht_buckets = [[], [], [], [], [], [new_entry ''Maxwell'' 17, new_entry ''llewxaM'' 18], [], [], [], []]\<rparr>
            ''Maxwell'' 99 = Some (Ok, h') \<and> carp_ht_get h' ''llewxaM'' = Some (new_entry ''llewxaM'' 99))"
proof -
  let ?h = "\<lparr>ht_size = 10, ht_buckets = [[], [], [], [], [], [new_entry ''Maxwell'' 17, new_entry ''llewxaM'' 18], [], [], [], []]\<rparr>"
  have hyps: "carp_ht_wf ?h" "carp_ht_used ?h \<le> 60" "carp_ht_get_pos ?h ''Maxwell'' = Some 0"
    "Suc 0 < length (ht_buckets ?h ! carp_ht_hash ''Maxwell'' (ht_size ?h))"
    "ent_key (ht_buckets ?h ! carp_ht_hash ''Maxwell'' (ht_size ?h) ! Suc 0) \<noteq> ''Maxwell''"
    "distinct (map ent_key (ht_buckets ?h ! carp_ht_hash ''Maxwell'' (ht_size ?h)))"
    by (simp_all add: carp_eval)
  from carp_ht_set_update_next [OF hyps, of 100 99] hyps show ?thesis by (simp add: carp_eval)
qed

text \<open>C6: Insertion after a resize stores the entry twice. When set resizes, the
  recursive call stores the key into the grown table and the code then falls
  through to its own store: a key new to the table ends up twice at the head of
  its bucket.\<close>

theorem carp_ht_set_resize_duplicates:
  assumes "carp_ht_wf h" and "carp_ht_in_use h \<le> ht_size h"
    and "60 < carp_ht_used h" and "2 * ht_size h + 1 \<le> cap"
    and "k \<notin> carp_ht_keys h"
  shows "\<exists>h'. carp_ht_set cap h k v = Some (Ok, h') \<and>
           ht_size h' = 2 * ht_size h + 1 \<and>
           ht_buckets h' ! carp_ht_hash k (ht_size h') = [new_entry k v, new_entry k v]"
  by (rule carp_ht_set_resize_twice [OF assms])

theorem carp_ht_set_resize_duplicates_witness:
  "carp_ht_wf \<lparr>ht_size = 1, ht_buckets = [[new_entry ''a'' 1]]\<rparr> \<and>
   carp_ht_in_use \<lparr>ht_size = 1, ht_buckets = [[new_entry ''a'' 1]]\<rparr> \<le> 1 \<and>
   60 < carp_ht_used \<lparr>ht_size = 1, ht_buckets = [[new_entry ''a'' 1]]\<rparr> \<and>
   ''b'' \<notin> carp_ht_keys \<lparr>ht_size = 1, ht_buckets = [[new_entry ''a'' 1]]\<rparr> \<and>
   (\<exists>h'. carp_ht_set 3 \<lparr>ht_size = 1, ht_buckets = [[new_entry ''a'' 1]]\<rparr> ''b'' 2 = Some (Ok, h') \<and>
         ht_size h' = 3 \<and> ht_buckets h' ! carp_ht_hash ''b'' (ht_size h') = [new_entry ''b'' 2, new_entry ''b'' 2])"
proof -
  let ?h = "\<lparr>ht_size = 1, ht_buckets = [[new_entry ''a'' 1]]\<rparr>"
  have hyps: "carp_ht_wf ?h" "carp_ht_in_use ?h \<le> ht_size ?h" "60 < carp_ht_used ?h"
    "2 * ht_size ?h + 1 \<le> 3" "''b'' \<notin> carp_ht_keys ?h"
    by (simp_all add: carp_eval)
  from carp_ht_set_resize_duplicates [OF hyps, of 2] hyps show ?thesis by simp
qed

text \<open>C7: Every set, successful or not, keeps the load invariant: the table stays
  well formed (sizes agree, each entry in the bucket of its hash) with at most
  one entry more than buckets.\<close>

theorem carp_ht_set_inv:
  "carp_ht_inv h \<Longrightarrow> carp_ht_set cap h k v = Some (st, h') \<Longrightarrow> carp_ht_inv h'"
  using carp_ht_set_f_load [of h cap cap k v st h']
  by (simp add: carp_ht_inv_def carp_ht_set_def)

theorem carp_ht_set_inv_witness:
  "carp_ht_inv \<lparr>ht_size = 1, ht_buckets = [[new_entry ''a'' 1]]\<rparr> \<and>
   carp_ht_set 3 \<lparr>ht_size = 1, ht_buckets = [[new_entry ''a'' 1]]\<rparr> ''b'' 2
     = Some (Ok, \<lparr>ht_size = 3, ht_buckets = [[], [new_entry ''a'' 1], [new_entry ''b'' 2, new_entry ''b'' 2]]\<rparr>) \<and>
   carp_ht_inv \<lparr>ht_size = 3, ht_buckets = [[], [new_entry ''a'' 1], [new_entry ''b'' 2, new_entry ''b'' 2]]\<rparr>"
proof -
  have hyps: "carp_ht_inv \<lparr>ht_size = 1, ht_buckets = [[new_entry ''a'' 1]]\<rparr>"
    "carp_ht_set 3 \<lparr>ht_size = 1, ht_buckets = [[new_entry ''a'' 1]]\<rparr> ''b'' 2
     = Some (Ok, \<lparr>ht_size = 3, ht_buckets = [[], [new_entry ''a'' 1], [new_entry ''b'' 2, new_entry ''b'' 2]]\<rparr>)"
    by (simp_all add: carp_eval)
  with carp_ht_set_inv [OF hyps] show ?thesis by simp
qed

text \<open>C8: Resize refines rehashing. On a table with the load invariant and enough
  memory, resize gives the table of size \<open>2 * size + 1\<close> whose buckets are
  those obtained by storing the entries one by one, in the order
  \<open>carp_ht_cleanup\<close> walks them, into an empty table of that size; no nested
  resize happens during the migration.\<close>

theorem carp_ht_resize_rehash:
  assumes inv: "carp_ht_inv h" and mem: "2 * ht_size h + 1 \<le> cap"
  shows "carp_ht_resize cap h =
     Some (Ok, h\<lparr>ht_size := 2 * ht_size h + 1,
                 ht_buckets := ht_buckets (carp_ht_rehash (2 * ht_size h + 1) (carp_ht_cleanup h))\<rparr>)"
proof -
  obtain f where "cap = Suc f" using mem by (cases cap) auto
  with carp_ht_resize_f_rehash [of h cap f] inv mem show ?thesis
    by (simp add: carp_ht_resize_def carp_ht_inv_def carp_ht_cleanup_def)
qed

theorem carp_ht_resize_rehash_witness:
  "carp_ht_inv \<lparr>ht_size = 1, ht_buckets = [[new_entry ''a'' 1, new_entry ''d'' 2]]\<rparr> \<and>
   carp_ht_resize 3 \<lparr>ht_size = 1, ht_buckets = [[new_entry ''a'' 1, new_entry ''d'' 2]]\<rparr>
     = Some (Ok, \<lparr>ht_size = 3, ht_buckets =
         ht_buckets (carp_ht_rehash 3 [new_entry ''a'' 1, new_entry ''d'' 2])\<rparr>)"
proof -
  let ?h = "\<lparr>ht_size = 1, ht_buckets = [[new_entry ''a'' 1, new_entry ''d'' 2]]\<rparr>"
  have hyps: "carp_ht_inv ?h" "2 * ht_size ?h + 1 \<le> 3" by (simp_all add: carp_eval)
  from carp_ht_resize_rehash [OF hyps] hyps(1) show ?thesis by (simp add: carp_ht_cleanup_def)
qed

text \<open>C9: When the table is above the threshold and the new bucket array cannot be
  allocated, set reports the allocation failure and leaves the table as it was.\<close>

theorem carp_ht_set_alloc_failure:
  "60 < carp_ht_used h \<Longrightarrow> cap < 2 * ht_size h + 1 \<Longrightarrow>
   carp_ht_set cap h k v = Some (Alloc_failure, h)"
  by (simp add: carp_ht_set_def carp_ht_set_f_resize_fail)

theorem carp_ht_set_alloc_failure_witness:
  "60 < carp_ht_used \<lparr>ht_size = 1, ht_buckets = [[new_entry ''a'' 1]]\<rparr> \<and> (2::nat) < 2 * 1 + 1 \<and>
   carp_ht_set 2 \<lparr>ht_size = 1, ht_buckets = [[new_entry ''a'' 1]]\<rparr> ''b'' 2
     = Some (Alloc_failure, \<lparr>ht_size = 1, ht_buckets = [[new_entry ''a'' 1]]\<rparr>)"
proof -
  have hyps: "60 < carp_ht_used \<lparr>ht_size = 1, ht_buckets = [[new_entry ''a'' 1]]\<rparr>"
    "2 < 2 * ht_size \<lparr>ht_size = 1, ht_buckets = [[new_entry ''a'' 1]]\<rparr> + 1"
    by (simp_all add: carp_eval)
  with carp_ht_set_alloc_failure [OF hyps, of "''b''" 2] show ?thesis by simp
qed

text \<open>C10: Resize returns for every table and allocator capacity.\<close>

theorem carp_ht_resize_terminates: "\<exists>r. carp_ht_resize cap h = Some r"
proof (cases "ht_size h = 0")
  case True
  then show ?thesis
    by (cases cap) (simp_all add: carp_ht_resize_def carp_ht_resize_f.simps)
next
  case False
  then have "cap < cap + ht_size h" by simp
  with carp_ht_fuel_enough(2) [of cap cap h] show ?thesis
    by (auto simp: carp_ht_resize_def)
qed

text \<open>C27: Set never shrinks a table: the size after a set is at least the size
  before, as the spec's data model requires.\<close>

theorem carp_ht_set_size_mono:
  "0 < ht_size h \<Longrightarrow> carp_ht_set cap h k v = Some (st, h') \<Longrightarrow> ht_size h \<le> ht_size h'"
  using carp_ht_fuel_enough(1) [of cap cap h k v] by (auto simp: carp_ht_set_def)

theorem carp_ht_set_size_mono_witness:
  "0 < ht_size \<lparr>ht_size = 1, ht_buckets = [[new_entry ''a'' 1]]\<rparr> \<and>
   carp_ht_set 3 \<lparr>ht_size = 1, ht_buckets = [[new_entry ''a'' 1]]\<rparr> ''b'' 2
     = Some (Ok, \<lparr>ht_size = 3, ht_buckets = [[], [new_entry ''a'' 1], [new_entry ''b'' 2, new_entry ''b'' 2]]\<rparr>) \<and>
   ht_size \<lparr>ht_size = 1, ht_buckets = [[new_entry ''a'' 1]]\<rparr>
     \<le> ht_size \<lparr>ht_size = 3, ht_buckets = [[], [new_entry ''a'' 1], [new_entry ''b'' 2, new_entry ''b'' 2]]\<rparr>"
proof -
  have hyps: "0 < ht_size \<lparr>ht_size = 1, ht_buckets = [[new_entry ''a'' 1]]\<rparr>"
    "carp_ht_set 3 \<lparr>ht_size = 1, ht_buckets = [[new_entry ''a'' 1]]\<rparr> ''b'' 2
     = Some (Ok, \<lparr>ht_size = 3, ht_buckets = [[], [new_entry ''a'' 1], [new_entry ''b'' 2, new_entry ''b'' 2]]\<rparr>)"
    by (simp_all add: carp_eval)
  from hyps carp_ht_set_size_mono [OF hyps] show ?thesis by simp
qed

end
