(* ===== verification/Carp_Print.thy ===== *)
theory Carp_Print
  imports Carp_Table "HOL-Library.Sublist"
begin

text \<open>
  The diagnostic dump \<open>carp_ht_print\<close> (lines 208--224) as the text it writes
  to standard output. \<open>printf\<close>'s conversions are modelled by decimal rendering:
  \<open>%d\<close> of the \<open>short\<close> occupancy, \<open>%ld\<close> of the bucket index and size,
  \<open>%lld\<close> of the signed value, \<open>%s\<close> of the key.
\<close>

section \<open>Decimal rendering\<close>

definition digit_char :: "nat \<Rightarrow> char" where
  "digit_char d = ''0123456789'' ! d"

fun dec_nat :: "nat \<Rightarrow> string" where
  "dec_nat n = (if n < 10 then [digit_char n] else dec_nat (n div 10) @ [digit_char (n mod 10)])"

definition dec_int :: "int \<Rightarrow> string" where
  "dec_int i = (if i < 0 then CHR ''-'' # dec_nat (nat (- i)) else dec_nat (nat i))"

section \<open>The dump\<close>

abbreviation nl :: string where "nl \<equiv> [CHR 0x0A]"
abbreviation dq :: string where "dq \<equiv> [CHR 0x22]"

text \<open>\<open>printf("  [%ld] \"%s\": %lld,", i, base->key, base->value)\<close>\<close>

definition print_entry :: "nat \<Rightarrow> carp_ht_entry \<Rightarrow> string" where
  "print_entry i e =
     ''  ['' @ dec_nat i @ '']'' @ '' '' @ dq @ ent_key e @ dq @ '': '' @ dec_int (sint (ent_val e)) @ '',''"

text \<open>The loop \<open>for (i = 0; i < h->size; i++) if (h->buckets[i]) { do ... while
  ((base = base->next)); printf("\n"); }\<close> over the buckets from index \<open>i\<close>.\<close>

fun print_buckets :: "nat \<Rightarrow> chain list \<Rightarrow> string" where
  "print_buckets i [] = []"
| "print_buckets i (c # cs) =
     (if c = [] then [] else concat (map (print_entry i) c) @ nl) @ print_buckets (Suc i) cs"

definition carp_ht_print :: "carp_ht \<Rightarrow> string" where
  "carp_ht_print h =
     ''{ '' @ dec_int (carp_ht_used h) @ ''% full (size '' @ dec_nat (ht_size h) @ '')'' @ nl @
     print_buckets 0 (take (ht_size h) (ht_buckets h)) @ ''}'' @ nl @ nl"

declare dec_nat.simps [simp del]

section \<open>Properties\<close>

text \<open>C24: Under the load invariant the header line of the dump reports the
  true occupancy: \<open>%d\<close> of the \<open>short\<close> \<open>carp_ht_used\<close> prints the exact
  percentage \<open>in_use * 100 / size\<close>, without sign or wrap-around, followed by
  the size.\<close>

theorem carp_ht_print_header:
  assumes wf: "carp_ht_wf h" and load: "carp_ht_in_use h \<le> ht_size h + 1"
  shows "prefix (''{ '' @ dec_nat (carp_ht_in_use h * 100 div ht_size h) @ ''% full (size '' @
                 dec_nat (ht_size h) @ '')'' @ nl)
           (carp_ht_print h)"
proof -
  have u: "carp_ht_used h = int (carp_ht_in_use h * 100 div ht_size h)"
    using carp_ht_used_load [OF wf load] by simp
  show ?thesis unfolding prefix_def
    by (intro exI [of _ "print_buckets 0 (take (ht_size h) (ht_buckets h)) @ ''}'' @ nl @ nl"])
       (simp add: carp_ht_print_def u dec_int_def)
qed

theorem carp_ht_print_header_witness:
  "carp_ht_wf \<lparr>ht_size = 3, ht_buckets = [[], [new_entry ''a'' 1], [new_entry ''b'' 2, new_entry ''b'' 2]]\<rparr> \<and>
   carp_ht_in_use \<lparr>ht_size = 3, ht_buckets = [[], [new_entry ''a'' 1], [new_entry ''b'' 2, new_entry ''b'' 2]]\<rparr> \<le> 3 + 1 \<and>
   prefix (''{ 100% full (size 3)'' @ nl)
     (carp_ht_print \<lparr>ht_size = 3, ht_buckets = [[], [new_entry ''a'' 1], [new_entry ''b'' 2, new_entry ''b'' 2]]\<rparr>)"
proof -
  let ?h = "\<lparr>ht_size = 3, ht_buckets = [[], [new_entry ''a'' 1], [new_entry ''b'' 2, new_entry ''b'' 2]]\<rparr>"
  have hyps: "carp_ht_wf ?h" "carp_ht_in_use ?h \<le> ht_size ?h + 1" by (simp_all add: carp_eval)
  have d: "carp_ht_in_use ?h * 100 div 3 = 100" by (simp add: carp_eval)
  have n: "dec_nat 100 = ''100''" "dec_nat 3 = ''3''" by (simp_all add: dec_nat.simps digit_char_def)
  from hyps carp_ht_print_header [OF hyps] show ?thesis by (simp add: d n)
qed

end
