(* ===== verification/Carp_Driver.thy ===== *)
theory Carp_Driver
  imports Carp_Set Carp_Print
begin

text \<open>
  The caller's side: the demonstration \<open>main\<close> of \<open>carp_ht.c\<close> (lines 7--33)
  and the life of a table under any sequence of the public operations. The
  reachable tables are those produced from a successful \<open>carp_ht_init\<close> by
  \<open>carp_ht_set\<close>, \<open>carp_ht_del\<close> and \<open>carp_ht_resize\<close> (\<open>carp_ht_get\<close> and
  \<open>carp_ht_print\<close> do not change the table); every reachable table is well formed
  and holds at most \<open>size + 1\<close> entries, so the nested resize that would leave
  \<open>size\<close> and the bucket array out of step never happens. Their sizes never
  exceed the allocator capacity, which bounds the \<open>long\<close> arithmetic of the
  source.
\<close>

section \<open>The demonstration program\<close>

text \<open>The eleven \<open>carp_ht_set\<close> calls of \<open>main\<close>, whose statuses it ignores. The
  literals \<open>"Maxwell\0"\<close> and the like end at their first NUL.\<close>

fun carp_sets :: "nat \<Rightarrow> carp_ht \<Rightarrow> (string \<times> long_long) list \<Rightarrow> carp_ht option" where
  "carp_sets cap h [] = Some h"
| "carp_sets cap h ((k, v) # kvs) =
     (case carp_ht_set cap h k v of None \<Rightarrow> None | Some (_, h') \<Rightarrow> carp_sets cap h' kvs)"

definition demo_entries :: "(string \<times> long_long) list" where
  "demo_entries =
     [(''Maxwell'', 17), (''llewxaM'', 18), (''axwellM'', 19), (''a'', 19), (''b'', 19),
      (''c'', 19), (''d'', 19), (''e'', 19), (''f'', 19), (''g'', 19), (''h'', 19)]"

text \<open>\<open>main\<close>: init with 10 buckets, the sets, a dump, the deletion of
  \<open>"Maxwell"\<close> with its status printed, a second dump and the cleanup. The
  program does not check the status of \<open>carp_ht_init\<close>; after a failed init it
  would work on a NULL bucket array, which the model does not follow (\<open>None\<close>).\<close>

definition carp_main :: "nat \<Rightarrow> string option" where
  "carp_main cap =
     (case carp_ht_init cap 10 \<lparr>ht_size = 0, ht_buckets = []\<rparr> of
        Some (Ok, h0) \<Rightarrow>
          (case carp_sets cap h0 demo_entries of
             None \<Rightarrow> None
           | Some h1 \<Rightarrow>
               (let (status, h2) = carp_ht_del h1 ''Maxwell''
                in Some (carp_ht_print h1 @ ''del status: '' @ dec_int (carp_status_code status) @ nl @
                         carp_ht_print h2)))
      | _ \<Rightarrow> None)"

section \<open>Reachable tables\<close>

inductive carp_reach :: "nat \<Rightarrow> carp_ht \<Rightarrow> bool" for cap :: nat where
  init: "carp_ht_init cap n h0 = Some (Ok, h) \<Longrightarrow> carp_reach cap h"
| set: "carp_reach cap h \<Longrightarrow> carp_ht_set cap h k v = Some (st, h') \<Longrightarrow> carp_reach cap h'"
| del: "carp_reach cap h \<Longrightarrow> carp_ht_del h k = (st, h') \<Longrightarrow> carp_reach cap h'"
| resize: "carp_reach cap h \<Longrightarrow> carp_ht_resize cap h = Some (st, h') \<Longrightarrow> carp_reach cap h'"

section \<open>Lemmas\<close>

lemma carp_ht_resize_f_load:
  assumes "carp_ht_inv h" and "carp_ht_resize_f fuel cap h = Some (st, h')"
  shows "carp_ht_inv h'"
proof (cases "st = Ok")
  case True
  have wf: "carp_ht_wf h" and load: "carp_ht_in_use h \<le> ht_size h + 1"
    using assms(1) by (simp_all add: carp_ht_inv_def)
  have "carp_ht_resize_f fuel cap h = Some (Ok, h')" using assms(2) True by simp
  from carp_ht_resize_f_Ok_rehash [OF wf load this] load show ?thesis
    by (simp add: carp_ht_inv_def)
next
  case False
  with assms(2) have "h' = h" using carp_ht_resize_f_fail by blast
  with assms(1) show ?thesis by simp
qed

lemma carp_reach_inv_rule: "carp_reach cap h \<Longrightarrow> carp_ht_inv h"
proof (induction rule: carp_reach.induct)
  case (init n h0 h)
  then show ?case using carp_ht_init_wf by (simp add: carp_ht_inv_def)
next
  case (set h k v st h')
  then have wf: "carp_ht_wf h" and load: "carp_ht_in_use h \<le> ht_size h + 1"
    by (simp_all add: carp_ht_inv_def)
  have "carp_ht_set_f cap cap h k v = Some (st, h')" using set.hyps(2) by (simp add: carp_ht_set_def)
  from carp_ht_set_f_load [OF wf load this] show ?case by (simp add: carp_ht_inv_def)
next
  case (del h k st h')
  then have wf: "carp_ht_wf h" and load: "carp_ht_in_use h \<le> ht_size h + 1"
    by (simp_all add: carp_ht_inv_def)
  have "carp_ht_wf h'" using carp_ht_del_wf [OF wf, of k] del.hyps(2) by simp
  moreover have "ht_size h' = ht_size h" using carp_ht_del_size(1) [of h k] del.hyps(2) by simp
  moreover have "carp_ht_in_use h' \<le> carp_ht_in_use h"
  proof (cases "st = Ok")
    case True
    then show ?thesis using carp_ht_del_in_use [OF wf, of k] del.hyps(2) by simp
  next
    case False
    then show ?thesis using carp_ht_del_error_unchanged [of h k] del.hyps(2) by simp
  qed
  ultimately show ?case using load by (simp add: carp_ht_inv_def)
next
  case (resize h st h')
  then show ?case using carp_ht_resize_f_load by (simp add: carp_ht_resize_def)
qed

lemma carp_reach_size_le: "carp_reach cap h \<Longrightarrow> ht_size h \<le> cap"
proof (induction rule: carp_reach.induct)
  case (init n h0 h)
  then show ?case by (auto simp: carp_ht_init_def split: if_splits)
next
  case (set h k v st h')
  then show ?case using carp_ht_set_f_size_le [of cap cap h k v st h'] by (simp add: carp_ht_set_def)
next
  case (del h k st h')
  then show ?case using carp_ht_del_size(1) [of h k] by simp
next
  case (resize h st h')
  then show ?case using carp_ht_resize_f_size_le [of cap cap h st h'] by (simp add: carp_ht_resize_def)
qed

lemmas carp_demo_eval = carp_eval carp_main_def demo_entries_def carp_ht_print_def print_entry_def
  dec_int_def dec_nat.simps digit_char_def

section \<open>Properties\<close>

text \<open>C11: Every table reachable from a successful init by any sequence of set,
  del and resize calls (with any statuses) is well formed and holds at most one
  entry more than it has buckets.\<close>

theorem carp_reach_inv: "carp_reach cap h \<Longrightarrow> carp_ht_inv h"
  by (rule carp_reach_inv_rule)

theorem carp_reach_inv_witness:
  "carp_reach 100 \<lparr>ht_size = 10, ht_buckets = [[new_entry ''a'' 3], [], [], [], [], [], [], [], [], []]\<rparr> \<and>
   carp_ht_inv \<lparr>ht_size = 10, ht_buckets = [[new_entry ''a'' 3], [], [], [], [], [], [], [], [], []]\<rparr>"
proof -
  let ?hi = "\<lparr>ht_size = 10, ht_buckets = replicate 10 []\<rparr>"
  let ?h = "\<lparr>ht_size = 10, ht_buckets = [[new_entry ''a'' 3], [], [], [], [], [], [], [], [], []]\<rparr>"
  have "carp_ht_init 100 10 \<lparr>ht_size = 0, ht_buckets = []\<rparr> = Some (Ok, ?hi)" by (simp add: carp_ht_init_def)
  then have "carp_reach 100 ?hi" by (rule carp_reach.init)
  moreover have "carp_ht_set 100 ?hi ''a'' 3 = Some (Ok, ?h)" by (simp add: carp_eval)
  ultimately have r: "carp_reach 100 ?h" by (rule carp_reach.set)
  with carp_reach_inv [OF r] show ?thesis by simp
qed

text \<open>C12: The scenario of \<open>main\<close>. With an allocator that can hold the grown
  table, the eleven sets end in a table of 21 buckets from which \<open>"Maxwell"\<close>
  and \<open>"e"\<close> cannot be retrieved, and the deletion of \<open>"Maxwell"\<close> reports
  \<open>NotFound\<close> and leaves the table unchanged.\<close>

theorem carp_demo_scenario:
  assumes "21 \<le> cap"
  shows "\<exists>h0 h1. carp_ht_init cap 10 \<lparr>ht_size = 0, ht_buckets = []\<rparr> = Some (Ok, h0) \<and>
    carp_sets cap h0 demo_entries = Some h1 \<and> ht_size h1 = 21 \<and>
    carp_ht_get h1 ''Maxwell'' = None \<and> carp_ht_get h1 ''e'' = None \<and>
    carp_ht_del h1 ''Maxwell'' = (Not_found, h1)"
proof -
  define c where "c = cap - 2"
  have c: "cap = Suc (Suc c)" "19 \<le> c" using assms by (simp_all add: c_def)
  show ?thesis unfolding c(1) using c(2) by (simp add: carp_demo_eval)
qed

theorem carp_demo_scenario_witness:
  "21 \<le> (21::nat) \<and> (\<exists>h0 h1. carp_ht_init 21 10 \<lparr>ht_size = 0, ht_buckets = []\<rparr> = Some (Ok, h0) \<and>
    carp_sets 21 h0 demo_entries = Some h1 \<and> ht_size h1 = 21 \<and>
    carp_ht_get h1 ''Maxwell'' = None \<and> carp_ht_get h1 ''e'' = None \<and>
    carp_ht_del h1 ''Maxwell'' = (Not_found, h1))"
proof -
  have le: "21 \<le> (21::nat)" by simp
  from le carp_demo_scenario [OF le] show ?thesis by (rule conjI)
qed

text \<open>C13: The text \<open>main\<close> writes: both dumps show the table at 47% of 21
  buckets, the entry \<open>"f"\<close> twice, and the deletion status 2.\<close>

theorem carp_main_output:
  assumes "21 \<le> cap"
  shows "carp_main cap = Some (let d =
      ''{ 47% full (size 21)'' @ nl @
      ''  [2] '' @ dq @ ''axwellM'' @ dq @ '': 19,'' @ nl @
      ''  [10] '' @ dq @ ''a'' @ dq @ '': 19,'' @ nl @
      ''  [11] '' @ dq @ ''b'' @ dq @ '': 19,'' @ nl @
      ''  [12] '' @ dq @ ''c'' @ dq @ '': 19,'' @ nl @
      ''  [13] '' @ dq @ ''d'' @ dq @ '': 19,'' @ nl @
      ''  [14] '' @ dq @ ''llewxaM'' @ dq @ '': 18,'' @ nl @
      ''  [15] '' @ dq @ ''f'' @ dq @ '': 19,'' @ ''  [15] '' @ dq @ ''f'' @ dq @ '': 19,'' @ nl @
      ''  [16] '' @ dq @ ''g'' @ dq @ '': 19,'' @ nl @
      ''  [17] '' @ dq @ ''h'' @ dq @ '': 19,'' @ nl @
      ''}'' @ nl @ nl
    in d @ ''del status: 2'' @ nl @ d)"
proof -
  define c where "c = cap - 2"
  have c: "cap = Suc (Suc c)" "19 \<le> c" using assms by (simp_all add: c_def)
  show ?thesis unfolding c(1) using c(2) by (simp add: carp_demo_eval)
qed

theorem carp_main_output_witness:
  "21 \<le> (21::nat) \<and> carp_main 21 = Some (let d =
      ''{ 47% full (size 21)'' @ nl @
      ''  [2] '' @ dq @ ''axwellM'' @ dq @ '': 19,'' @ nl @
      ''  [10] '' @ dq @ ''a'' @ dq @ '': 19,'' @ nl @
      ''  [11] '' @ dq @ ''b'' @ dq @ '': 19,'' @ nl @
      ''  [12] '' @ dq @ ''c'' @ dq @ '': 19,'' @ nl @
      ''  [13] '' @ dq @ ''d'' @ dq @ '': 19,'' @ nl @
      ''  [14] '' @ dq @ ''llewxaM'' @ dq @ '': 18,'' @ nl @
      ''  [15] '' @ dq @ ''f'' @ dq @ '': 19,'' @ ''  [15] '' @ dq @ ''f'' @ dq @ '': 19,'' @ nl @
      ''  [16] '' @ dq @ ''g'' @ dq @ '': 19,'' @ nl @
      ''  [17] '' @ dq @ ''h'' @ dq @ '': 19,'' @ nl @
      ''}'' @ nl @ nl
    in d @ ''del status: 2'' @ nl @ d)"
proof -
  have le: "21 \<le> (21::nat)" by simp
  from le carp_main_output [OF le] show ?thesis by (rule conjI)
qed

text \<open>C32: The \<open>long\<close> arithmetic of the source agrees with the model's natural
  numbers on every reachable table: \<open>2 * h->size + 1\<close> (line 182) and
  \<open>in_use * 100\<close> (line 65) do not overflow a 64-bit \<open>long\<close>, provided the
  allocator cannot hand out \<open>2\<^sup>5\<^sup>6\<close> bucket pointers (\<open>2\<^sup>5\<^sup>9\<close> bytes, beyond any
  64-bit address space in use). Sizes of reachable tables never exceed the
  allocator capacity.\<close>

theorem carp_reach_long_arith:
  assumes r: "carp_reach cap h" and small: "cap < 2 ^ 56"
  shows "sint (2 * word_of_nat (ht_size h) + 1 :: 64 word) = int (2 * ht_size h + 1) \<and>
         sint (word_of_nat (carp_ht_in_use h) * 100 :: 64 word) = int (carp_ht_in_use h * 100)"
proof -
  have s: "ht_size h \<le> cap" by (rule carp_reach_size_le [OF r])
  have u: "carp_ht_in_use h \<le> ht_size h + 1"
    using carp_reach_inv_rule [OF r] by (simp add: carp_ht_inv_def)
  have "2 * ht_size h + 1 < 2 ^ 63" using s small by simp
  from sint_word_of_nat_small [OF this] have a: "sint (word_of_nat (2 * ht_size h + 1) :: 64 word) = int (2 * ht_size h + 1)" .
  have "carp_ht_in_use h * 100 < 2 ^ 63" using s u small by simp
  from sint_word_of_nat_small [OF this] have b: "sint (word_of_nat (carp_ht_in_use h * 100) :: 64 word) = int (carp_ht_in_use h * 100)" .
  from a b show ?thesis by (simp add: ac_simps)
qed

theorem carp_reach_long_arith_witness:
  "carp_reach 100 \<lparr>ht_size = 10, ht_buckets = replicate 10 []\<rparr> \<and> (100::nat) < 2 ^ 56 \<and>
   sint (2 * word_of_nat (ht_size \<lparr>ht_size = 10, ht_buckets = replicate 10 []\<rparr>) + 1 :: 64 word) = 21"
proof -
  have "carp_ht_init 100 10 \<lparr>ht_size = 0, ht_buckets = []\<rparr> = Some (Ok, \<lparr>ht_size = 10, ht_buckets = replicate 10 []\<rparr>)"
    by (simp add: carp_ht_init_def)
  then have r: "carp_reach 100 \<lparr>ht_size = 10, ht_buckets = replicate 10 []\<rparr>" by (rule carp_reach.init)
  have c: "(100::nat) < 2 ^ 56" by simp
  from r c carp_reach_long_arith [OF r c] show ?thesis by simp
qed

end
