(* ===== verification/Carp_Keys.thy ===== *)
theory Carp_Keys
  imports Carp_Table "HOL-Library.Multiset"
begin

text \<open>
  The entries of a table as a multiset of keys, and runs of deletions. Every
  \<open>carp_ht_del\<close> of a key the table holds succeeds and removes one occurrence
  of the key, whatever duplicates set has created; so deleting each stored key
  once, in the order \<open>carp_ht_cleanup\<close> walks them, always drives a well-formed
  table to the empty one with every status \<open>0\<close>.
\<close>

section \<open>Definitions\<close>

text \<open>The multiset of keys of the entries cleanup would free.\<close>

definition carp_ht_key_mset :: "carp_ht \<Rightarrow> string multiset" where
  "carp_ht_key_mset h = mset (map ent_key (carp_ht_cleanup h))"

text \<open>A sequence of \<open>carp_ht_del\<close> calls on one table, with their statuses.\<close>

fun carp_dels :: "carp_ht \<Rightarrow> string list \<Rightarrow> carp_status list \<times> carp_ht" where
  "carp_dels h [] = ([], h)"
| "carp_dels h (k # ks) =
     (let (st, h1) = carp_ht_del h k; (sts, h2) = carp_dels h1 ks in (st # sts, h2))"

section \<open>Lemmas\<close>

lemma mset_concat_update:
  "i < length xs \<Longrightarrow> mset (concat (xs[i := x])) + mset (xs ! i) = mset (concat xs) + mset x"
proof (induction xs arbitrary: i)
  case Nil
  then show ?case by simp
next
  case (Cons y ys)
  show ?case
  proof (cases i)
    case 0
    then show ?thesis by (simp add: union_commute union_lcomm)
  next
    case (Suc j)
    with Cons.prems Cons.IH [of j] show ?thesis by (simp add: union_assoc [symmetric])
  qed
qed

lemma chain_remove_keys:
  "has_key k c \<Longrightarrow> mset (map ent_key (chain_remove k c)) = mset (map ent_key c) - {#k#}"
  by (induction c) (auto simp: has_key_def)

lemma key_mset_has_key:
  assumes wf: "carp_ht_wf h" and k: "k \<in># carp_ht_key_mset h"
  shows "has_key k (ht_buckets h ! carp_ht_hash k (ht_size h))"
proof -
  from k obtain e where e: "e \<in> set (concat (take (ht_size h) (ht_buckets h)))" and ek: "ent_key e = k"
    by (auto simp: carp_ht_key_mset_def carp_ht_cleanup_def)
  then obtain c where c: "c \<in> set (take (ht_size h) (ht_buckets h))" "e \<in> set c" by auto
  then obtain i where "i < length (take (ht_size h) (ht_buckets h))" "take (ht_size h) (ht_buckets h) ! i = c"
    by (auto simp: in_set_conv_nth)
  with c(2) have i: "i < ht_size h" "e \<in> set (ht_buckets h ! i)" by simp_all
  with wf ek have "carp_ht_hash k (ht_size h) = i" unfolding carp_ht_wf_def by blast
  with i ek show ?thesis by (auto simp: has_key_def)
qed


lemma mset_cancel_remove:
  assumes "a + m = b + r" and "m = add_mset k r"
  shows "a = b - {#k#}"
proof -
  from assms have "add_mset k a + r = b + r" by simp
  then have "add_mset k a = b" by simp
  then show ?thesis by auto
qed

lemma carp_ht_del_key_mset:
  assumes wf: "carp_ht_wf h" and k: "k \<in># carp_ht_key_mset h"
  shows "fst (carp_ht_del h k) = Ok \<and> carp_ht_wf (snd (carp_ht_del h k)) \<and>
         carp_ht_key_mset (snd (carp_ht_del h k)) = carp_ht_key_mset h - {#k#}"
proof -
  let ?i = "carp_ht_hash k (ht_size h)"
  let ?c = "ht_buckets h ! ?i"
  let ?c' = "chain_remove k ?c"
  let ?bs = "map (map ent_key) (take (ht_size h) (ht_buckets h))"
  have hk: "has_key k ?c" by (rule key_mset_has_key [OF wf k])
  then have ne: "?c \<noteq> []" by (auto simp: has_key_def)
  have i: "?i < ht_size h" "?i < length (ht_buckets h)"
    using carp_ht_wf_index [OF wf] by simp_all
  have del: "carp_ht_del h k = (Ok, h\<lparr>ht_buckets := (ht_buckets h)[?i := ?c']\<rparr>)"
    using hk ne by (simp add: carp_ht_del_closed Let_def)
  have upd: "mset (concat (?bs[?i := map ent_key ?c'])) + mset (map ent_key ?c)
      = mset (concat ?bs) + mset (map ent_key ?c')"
    using mset_concat_update [of ?i ?bs "map ent_key ?c'"] i by simp
  have "k \<in># mset (map ent_key ?c)" using hk by (auto simp: has_key_def)
  then have "mset (map ent_key ?c) = add_mset k (mset (map ent_key ?c'))"
    using chain_remove_keys [OF hk] by simp
  from mset_cancel_remove [OF upd this]
  have "mset (concat (?bs[?i := map ent_key ?c'])) = mset (concat ?bs) - {#k#}" .
  then have "carp_ht_key_mset (snd (carp_ht_del h k)) = carp_ht_key_mset h - {#k#}"
    by (simp add: del carp_ht_key_mset_def carp_ht_cleanup_def map_concat take_update_swap map_update)
  with del carp_ht_del_wf [OF wf, of k] show ?thesis by simp
qed

lemma carp_ht_in_use_key_mset: "carp_ht_in_use h = size (carp_ht_key_mset h)"
  by (simp add: carp_ht_in_use_def carp_ht_key_mset_def carp_ht_cleanup_def length_concat)

lemma carp_dels_key_mset:
  "carp_ht_wf h \<Longrightarrow> mset ks \<subseteq># carp_ht_key_mset h \<Longrightarrow>
   \<exists>h'. carp_dels h ks = (replicate (length ks) Ok, h') \<and> carp_ht_wf h' \<and>
        carp_ht_key_mset h' = carp_ht_key_mset h - mset ks"
proof (induction ks arbitrary: h)
  case Nil
  then show ?case by simp
next
  case (Cons k ks)
  from Cons.prems(2) have k: "k \<in># carp_ht_key_mset h"
    and sub: "mset ks \<subseteq># carp_ht_key_mset h - {#k#}"
    by (simp_all add: insert_subset_eq_iff)
  obtain h1 where d: "carp_ht_del h k = (Ok, h1)" and wf1: "carp_ht_wf h1"
    and m1: "carp_ht_key_mset h1 = carp_ht_key_mset h - {#k#}"
    using carp_ht_del_key_mset [OF Cons.prems(1) k] by (cases "carp_ht_del h k") auto
  from Cons.IH [OF wf1] sub m1 obtain h' where
    r: "carp_dels h1 ks = (replicate (length ks) Ok, h')" "carp_ht_wf h'"
       "carp_ht_key_mset h' = carp_ht_key_mset h1 - mset ks"
    by auto
  with d m1 show ?case by simp
qed

section \<open>Properties\<close>

text \<open>C31: Progress of deletion: on a well-formed table, deleting the key of each
  stored entry once, in cleanup order, succeeds every time (status 0) and
  reaches the empty table, also when set has stored duplicate entries.\<close>

theorem carp_ht_drain:
  assumes wf: "carp_ht_wf h"
  shows "\<exists>h'. carp_dels h (map ent_key (carp_ht_cleanup h)) = (replicate (carp_ht_in_use h) Ok, h') \<and>
    carp_ht_in_use h' = 0"
proof -
  have sub: "mset (map ent_key (carp_ht_cleanup h)) \<subseteq># carp_ht_key_mset h"
    by (simp add: carp_ht_key_mset_def)
  have len: "length (map ent_key (carp_ht_cleanup h)) = carp_ht_in_use h"
    by (simp add: carp_ht_in_use_key_mset carp_ht_key_mset_def)
  from carp_dels_key_mset [OF wf sub] len show ?thesis
    by (auto simp: carp_ht_in_use_key_mset carp_ht_key_mset_def)
qed

theorem carp_ht_drain_witness:
  "carp_ht_wf \<lparr>ht_size = 3, ht_buckets = [[], [new_entry ''a'' 1], [new_entry ''b'' 2, new_entry ''b'' 2]]\<rparr> \<and>
   carp_dels \<lparr>ht_size = 3, ht_buckets = [[], [new_entry ''a'' 1], [new_entry ''b'' 2, new_entry ''b'' 2]]\<rparr> [''a'', ''b'', ''b'']
     = ([Ok, Ok, Ok], \<lparr>ht_size = 3, ht_buckets = [[], [], []]\<rparr>)"
proof -
  let ?h = "\<lparr>ht_size = 3, ht_buckets = [[], [new_entry ''a'' 1], [new_entry ''b'' 2, new_entry ''b'' 2]]\<rparr>"
  have wf: "carp_ht_wf ?h" by (simp add: carp_eval)
  from carp_ht_drain [OF wf] have "\<exists>h'. carp_dels ?h [''a'', ''b'', ''b''] = ([Ok, Ok, Ok], h')"
    by (auto simp: carp_eval)
  with wf show ?thesis by (auto simp: carp_eval)
qed

end
