(* ===== verification/Carp_Memory.thy ===== *)
theory Carp_Memory
  imports Carp_Table
begin

text \<open>
  Node accounting of \<open>carp_ht_set\<close>'s store (lines 132--159): how many nodes
  each store allocates with \<open>calloc\<close> and how many it leaves unreachable. The
  count balances against the entry count of the table and exposes the leak of
  the branch that overwrites a non-empty bucket. Addresses and \<open>free\<close> are not
  modelled; cleanup's release of every reachable node is \<open>carp_ht_cleanup\<close>.
\<close>

section \<open>Definitions\<close>

text \<open>Memory accounting of the store: the nodes it allocates (\<open>calloc\<close> at lines
  137 and 151; none when the walk returns at line 145) and the nodes it makes
  unreachable (the chain the bucket held when line 137 overwrites it).\<close>

fun set_walk_alloc :: "string \<Rightarrow> chain \<Rightarrow> nat" where
  "set_walk_alloc k [] = 1"
| "set_walk_alloc k (e # es) = (if ent_key e \<noteq> k then 0 else set_walk_alloc k es)"

definition carp_ht_store_mem :: "carp_ht \<Rightarrow> string \<Rightarrow> nat \<times> nat" where
  "carp_ht_store_mem h k =
     (let hash = carp_ht_hash k (ht_size h); c = ht_buckets h ! hash
      in case carp_ht_get_pos h k of
           None \<Rightarrow> (1, length c)
         | Some j \<Rightarrow> (set_walk_alloc k (drop (Suc j) c), 0))"

section \<open>Lemmas\<close>

lemma length_set_walk_alloc [chain_simps]: "length (set_walk k v es) = length es + set_walk_alloc k es"
  by (induction es) auto

section \<open>Properties\<close>

text \<open>C28: Node accounting of the store: the entries of the table after the store,
  plus the nodes it made unreachable, equal the entries before plus the nodes it
  allocated.\<close>

theorem carp_ht_store_mem_balance:
  assumes wf: "carp_ht_wf h"
  shows "carp_ht_in_use (carp_ht_store h k v) + snd (carp_ht_store_mem h k)
       = carp_ht_in_use h + fst (carp_ht_store_mem h k)"
proof -
  let ?i = "carp_ht_hash k (ht_size h)"
  let ?c = "ht_buckets h ! ?i"
  let ?c' = "case carp_ht_get_pos h k of
           None \<Rightarrow> [new_entry k v]
         | Some j \<Rightarrow> take (Suc j) ?c @ set_walk k v (drop (Suc j) ?c)"
  have i: "?i < ht_size h" "?i < length (ht_buckets h)"
    using carp_ht_wf_index [OF wf] by simp_all
  have upd: "carp_ht_in_use (carp_ht_store h k v) + length ?c = carp_ht_in_use h + length ?c'"
    using in_use_update [OF i, of ?c'] by (simp only: carp_ht_store_chain)
  show ?thesis
  proof (cases "carp_ht_get_pos h k")
    case None
    with upd show ?thesis by (simp add: carp_ht_store_mem_def Let_def)
  next
    case (Some j)
    then have "j < length ?c" by (auto dest: carp_ht_get_pos_Some simp: Let_def)
    with Some upd show ?thesis
      by (simp add: carp_ht_store_mem_def Let_def chain_simps)
  qed
qed

theorem carp_ht_store_mem_balance_witness:
  "carp_ht_wf \<lparr>ht_size = 10, ht_buckets = [[], [], [], [], [], [new_entry ''Maxwell'' 17], [], [], [], []]\<rparr> \<and>
   carp_ht_in_use (carp_ht_store \<lparr>ht_size = 10, ht_buckets = [[], [], [], [], [], [new_entry ''Maxwell'' 17], [], [], [], []]\<rparr> ''llewxaM'' 18) + snd (carp_ht_store_mem \<lparr>ht_size = 10, ht_buckets = [[], [], [], [], [], [new_entry ''Maxwell'' 17], [], [], [], []]\<rparr> ''llewxaM'')
     = carp_ht_in_use \<lparr>ht_size = 10, ht_buckets = [[], [], [], [], [], [new_entry ''Maxwell'' 17], [], [], [], []]\<rparr> + fst (carp_ht_store_mem \<lparr>ht_size = 10, ht_buckets = [[], [], [], [], [], [new_entry ''Maxwell'' 17], [], [], [], []]\<rparr> ''llewxaM'')"
proof -
  have wf: "carp_ht_wf \<lparr>ht_size = 10, ht_buckets = [[], [], [], [], [], [new_entry ''Maxwell'' 17], [], [], [], []]\<rparr>" by (simp add: carp_eval)
  from wf carp_ht_store_mem_balance [OF wf, of "''llewxaM''" 18] show ?thesis by (rule conjI)
qed

text \<open>C29: The collision branch leaks memory: when a key is stored into a
  non-empty bucket that does not hold it, the store allocates one node and
  orphans every node of the old chain, and none of them is among the nodes
  \<open>carp_ht_cleanup\<close> later frees. The leak comments of the source point at
  resize and cleanup instead, which free every node they reach.\<close>

theorem carp_ht_store_leak:
  assumes wf: "carp_ht_wf h"
    and fresh: "\<not> has_key k (ht_buckets h ! carp_ht_hash k (ht_size h))"
    and occ: "ht_buckets h ! carp_ht_hash k (ht_size h) \<noteq> []"
  shows "carp_ht_store_mem h k = (1, length (ht_buckets h ! carp_ht_hash k (ht_size h))) \<and>
    set (ht_buckets h ! carp_ht_hash k (ht_size h)) \<inter> set (carp_ht_cleanup (carp_ht_store h k v)) = {}"
proof -
  let ?i = "carp_ht_hash k (ht_size h)"
  let ?c = "ht_buckets h ! ?i"
  have none: "carp_ht_get_pos h k = None" using wf fresh by (simp add: carp_ht_get_pos_wf_None)
  have i: "?i < ht_size h" "?i < length (ht_buckets h)" using carp_ht_wf_index [OF wf] by simp_all
  have mem: "carp_ht_store_mem h k = (1, length ?c)" using none by (simp add: carp_ht_store_mem_def Let_def)
  have st: "ht_buckets (carp_ht_store h k v) = (ht_buckets h)[?i := [new_entry k v]]"
    using none by (simp add: carp_ht_store_chain)
  have "e \<notin> set (carp_ht_cleanup (carp_ht_store h k v))" if e: "e \<in> set ?c" for e
  proof
    assume "e \<in> set (carp_ht_cleanup (carp_ht_store h k v))"
    then obtain b where b: "b \<in> set (take (ht_size h) ((ht_buckets h)[?i := [new_entry k v]]))" "e \<in> set b"
      by (auto simp: carp_ht_cleanup_def st)
    then obtain j where j: "j < ht_size h" "j < length (ht_buckets h)"
      "b = ((ht_buckets h)[?i := [new_entry k v]]) ! j"
      by (auto simp: in_set_conv_nth)
    show False
    proof (cases "j = ?i")
      case True
      with j b i have "e = new_entry k v" by simp
      with e fresh show False by (auto simp: has_key_def)
    next
      case False
      with j b have "e \<in> set (ht_buckets h ! j)" by simp
      with wf j have "carp_ht_hash (ent_key e) (ht_size h) = j" unfolding carp_ht_wf_def by blast
      moreover have "carp_ht_hash (ent_key e) (ht_size h) = ?i" using carp_ht_wf_bucket_hash [OF wf e] .
      ultimately show False using False by simp
    qed
  qed
  with mem show ?thesis by blast
qed

theorem carp_ht_store_leak_witness:
  "carp_ht_wf \<lparr>ht_size = 10, ht_buckets = [[], [], [], [], [], [new_entry ''Maxwell'' 17], [], [], [], []]\<rparr> \<and>
   carp_ht_store_mem \<lparr>ht_size = 10, ht_buckets = [[], [], [], [], [], [new_entry ''Maxwell'' 17], [], [], [], []]\<rparr> ''llewxaM'' = (1, 1) \<and>
   new_entry ''Maxwell'' 17 \<notin> set (carp_ht_cleanup (carp_ht_store
     \<lparr>ht_size = 10, ht_buckets = [[], [], [], [], [], [new_entry ''Maxwell'' 17], [], [], [], []]\<rparr> ''llewxaM'' 18))"
proof -
  let ?h = "\<lparr>ht_size = 10, ht_buckets = [[], [], [], [], [], [new_entry ''Maxwell'' 17], [], [], [], []]\<rparr>"
  have hyps: "carp_ht_wf ?h" "\<not> has_key ''llewxaM'' (ht_buckets ?h ! carp_ht_hash ''llewxaM'' (ht_size ?h))"
    "ht_buckets ?h ! carp_ht_hash ''llewxaM'' (ht_size ?h) \<noteq> []"
    by (simp_all add: carp_eval has_key_def)
  have b: "ht_buckets ?h ! carp_ht_hash ''llewxaM'' (ht_size ?h) = [new_entry ''Maxwell'' 17]"
    by (simp add: carp_eval)
  from carp_ht_store_leak [OF hyps, of 18] hyps(1) show ?thesis by (simp only: b) simp
qed

end
