(* ===== verification/Spec2Isabelle.thy ===== *)
theory Spec2Isabelle
  imports Carp_Driver Carp_Keys Carp_Memory
begin

text \<open>
  Verification development of the carp string-keyed hash table,
  \<open>src/src/lib/carp_ht.c\<close> (the header \<open>carp_ht.h\<close> is not in the repository).

  \<^bold>\<open>The program.\<close> A table is a size and an array of bucket pointers, each the
  head of a singly linked chain of entries (key, \<open>long long\<close> value, next).
  \<open>carp_ht_rhash\<close>/\<open>carp_ht_hash\<close> give the bucket of a key (djb2 modulo the
  size); \<open>carp_ht_used\<close> counts the entries as a percentage of the size;
  \<open>carp_ht_set\<close> resizes when that exceeds 60, then looks the key up with
  \<open>carp_ht_get\<close> and either replaces the bucket or walks its chain;
  \<open>carp_ht_resize\<close> allocates \<open>2 * size + 1\<close> buckets and migrates every entry by
  calling \<open>carp_ht_set\<close> on the new table, so set and resize are mutually
  recursive; \<open>carp_ht_del\<close> unlinks the first entry with the key;
  \<open>carp_ht_print\<close> dumps the table; \<open>carp_ht_cleanup\<close> frees it; \<open>main\<close> runs
  a fixed scenario.

  \<^bold>\<open>Theories.\<close>
  \<^item> \<open>Carp_Prelude\<close>: the C integer types as words (\<open>ulong\<close>, \<open>long_long\<close>,
    \<open>short\<close>, \<open>schar\<close>), the fact collections \<open>carp_eval\<close> (evaluation of the
    model on concrete tables by \<open>simp\<close>) and \<open>chain_simps\<close>, list lemmas.
  \<^item> \<open>Carp_Hash\<close>: \<open>char_int\<close> (the byte read as signed \<open>char\<close>),
    \<open>carp_ht_rhash_loop\<close>, \<open>carp_ht_rhash\<close>, \<open>carp_ht_hash\<close>, and the djb2
    polynomial \<open>djb2_poly\<close> the loop is proved equal to (C21--C23; C23 spells out the sign extension of bytes of 128 and
    above for every key).
  \<^item> \<open>Carp_Table\<close>: the records \<open>carp_ht_entry\<close> and \<open>carp_ht\<close> (a chain is a
    list, the \<open>next\<close> pointers are its structure, a pointer into a chain is a
    position, a NULL bucket array is \<open>[]\<close>), the statuses \<open>carp_status\<close> with their
    C codes, \<open>carp_ht_in_use\<close>/\<open>carp_ht_used\<close>, \<open>carp_ht_init\<close>, the lookup
    walk \<open>get_walk\<close>/\<open>carp_ht_get_pos\<close>/\<open>carp_ht_get\<close>, the part of set after the
    resize check \<open>set_walk\<close>/\<open>carp_ht_store\<close>, the deletion
    \<open>del_walk\<close>/\<open>carp_ht_del\<close>, \<open>carp_ht_cleanup\<close> (the entries it frees, in
    order), and the invariant \<open>carp_ht_wf\<close> (positive size equal to the array
    length, every entry in the bucket of its hash) with the reference chain
    operations \<open>has_key\<close>, \<open>chain_remove\<close> (C14--C20).
  \<^item> \<open>Carp_Memory\<close>: the node accounting of the store, \<open>set_walk_alloc\<close> and
    \<open>carp_ht_store_mem\<close> (nodes allocated and nodes orphaned) (C28, C29).
  \<^item> \<open>Carp_Set\<close>: \<open>carp_ht_set_f\<close>, \<open>carp_ht_resize_f\<close>, \<open>carp_ht_migrate_f\<close>,
    the mutual recursion of lines 120--160 and 178--206, and the entry points
    \<open>carp_ht_set\<close>, \<open>carp_ht_resize\<close>; the reference rehash
    \<open>carp_ht_rehash\<close> (a fold of \<open>carp_ht_store\<close> over the entries into
    \<open>carp_ht_empty\<close>) and the load invariant \<open>carp_ht_inv\<close> (C1--C10, C27).
  \<^item> \<open>Carp_Print\<close>: decimal rendering for \<open>printf\<close> and \<open>carp_ht_print\<close> as the
    string written (C24).
  \<^item> \<open>Carp_Driver\<close>: \<open>main\<close> as \<open>carp_main\<close>, and the reachable tables
    \<open>carp_reach\<close>, an inductive relation closed under init, set, del and resize
    (C11--C13, C32).
  \<^item> \<open>Carp_Keys\<close>: the multiset of stored keys \<open>carp_ht_key_mset\<close> and runs of
    deletions \<open>carp_dels\<close>; each deletion of a stored key removes one occurrence
    (C31).
  \<^item> This theory: the abstraction \<open>carp_ht_abs\<close> of a table to the partial map
    its lookups give, the refinement of the map operations (C25, C26), and a
    run of set then del that keeps the key (C30).

  \<^bold>\<open>Allocation and fuel.\<close> The allocator is a parameter \<open>cap\<close>: an array of more
  than \<open>cap\<close> bucket pointers cannot be allocated (init and resize return status
  1). Entry allocation is assumed to succeed, as the code does not check it.
  The set/resize recursion carries fuel, spent at each call on a grown table;
  \<open>carp_ht_set cap\<close> starts with fuel \<open>cap\<close>, which is enough because every
  nested call works on a table of at least one more bucket and no table of more
  than \<open>cap\<close> buckets is allocated (\<open>carp_ht_fuel_enough\<close>: fuel \<open>f\<close> suffices
  when \<open>cap < f + size\<close>); so set and resize return for every input (C1, C10).

  \<^bold>\<open>Results.\<close> Set is correct only in part: a fresh key is found after the set
  (C2) and set refines the map update when the key's bucket is empty (C25), but
  an existing key's update is lost (C3) or written into the next entry (C5), a
  new key in an occupied bucket destroys the chain (C4), and a set that
  resizes stores its entry twice (C6). Resize is the rehash of the entries in
  cleanup order (C8) and never nests under the load invariant, which every
  reachable table has (C7, C11). Delete refines map deletion on chains without
  duplicate keys (C26) and reports its errors with the table unchanged (C16),
  but removes only the first of duplicated entries (C15), so a set that resized
  followed by a del of the same key leaves the key mapped (C30). The demonstration loses two of its eleven keys (C12, C13). Set never
  shrinks a table (C27). The node accounting balances (C28) and exposes the
  leak of the collision branch (C29). Deleting every stored key once always
  succeeds and empties the table (C31), and the \<open>long\<close> arithmetic of resize and
  of the occupancy never overflows on reachable tables (C32); under the load
  invariant the dump's header prints the exact occupancy (C24).

  \<^bold>\<open>Not modelled.\<close> The heap itself: addresses, and \<open>free\<close> beyond the
  count of nodes a store allocates and orphans (\<open>Carp_Memory\<close>). Two defects live
  only there and are recorded as findings without a theorem: the undersized
  \<open>calloc(1, sizeof base->next)\<close> of line 151 and the unterminated \<open>strncpy\<close> of
  line 155. What they do depends on the layout of \<open>carp_ht_entry\<close> in the header
  \<open>carp_ht.h\<close>, which the repository does not contain, so no faithful model of
  them exists; a heap model in the style of AutoCorres would need that layout.
  Keys are therefore modelled as the strings they are meant to hold.
  Assertions are not modelled beyond \<open>size > 0\<close> in init. The
  product \<open>size * sizeof(carp_ht_entry *)\<close> passed to \<open>malloc\<close> at line 73 can
  wrap around for sizes of \<open>2\<^sup>6\<^sup>1\<close> and more; the model's allocator bound
  \<open>cap\<close> stands for every such failure, and C32 assumes a capacity far below it. After a failed init,
  \<open>main\<close> would use a NULL array; \<open>carp_main\<close> gives \<open>None\<close> there.
\<close>

section \<open>Abstraction to a partial map\<close>

text \<open>The map a table stands for: the value its lookup finds for each key.\<close>

definition carp_ht_abs :: "carp_ht \<Rightarrow> string \<Rightarrow> long_long option" where
  "carp_ht_abs h k = map_option ent_val (carp_ht_get h k)"

section \<open>Lemmas\<close>

lemma find_chain_remove_other [chain_simps]:
  "k' \<noteq> k \<Longrightarrow> find (\<lambda>e. ent_key e = k') (chain_remove k c) = find (\<lambda>e. ent_key e = k') c"
  by (induction c) auto

lemma carp_ht_abs_store_empty:
  assumes wf: "carp_ht_wf h" and empty: "ht_buckets h ! carp_ht_hash k (ht_size h) = []"
  shows "carp_ht_abs (carp_ht_store h k v) = (carp_ht_abs h)(k \<mapsto> v)"
proof
  fix k'
  have pos: "0 < ht_size h" by (rule carp_ht_wf_index(1) [OF wf])
  have i: "carp_ht_hash k (ht_size h) < length (ht_buckets h)" by (rule carp_ht_wf_hash_lt [OF wf])
  have none: "carp_ht_get_pos h k = None"
    using pos empty by (simp add: carp_ht_get_pos_None has_key_def)
  show "carp_ht_abs (carp_ht_store h k v) k' = ((carp_ht_abs h)(k \<mapsto> v)) k'"
  proof (cases "carp_ht_hash k' (ht_size h) = carp_ht_hash k (ht_size h)")
    case True
    with pos i none empty show ?thesis
      by (simp add: carp_ht_abs_def carp_ht_get_find carp_ht_store_chain)
  next
    case False
    then have "k' \<noteq> k" by blast
    with store_other_bucket [OF wf False] show ?thesis by (simp add: carp_ht_abs_def)
  qed
qed

section \<open>Properties\<close>

text \<open>C25: Set refines the map update when the key's bucket is empty: below the
  resize threshold the new table stands for the old map updated at the key.\<close>

theorem carp_ht_set_refines_map:
  assumes wf: "carp_ht_wf h" and low: "carp_ht_used h \<le> 60"
    and empty: "ht_buckets h ! carp_ht_hash k (ht_size h) = []"
  shows "\<exists>h'. carp_ht_set cap h k v = Some (Ok, h') \<and> carp_ht_abs h' = (carp_ht_abs h)(k \<mapsto> v)"
  using carp_ht_abs_store_empty [OF wf empty, of v] carp_ht_set_f_plain [OF low]
  by (simp add: carp_ht_set_def)

theorem carp_ht_set_refines_map_witness:
  "carp_ht_wf \<lparr>ht_size = 10, ht_buckets = [[], [], [], [], [], [new_entry ''Maxwell'' 17], [], [], [], []]\<rparr> \<and>
   carp_ht_used \<lparr>ht_size = 10, ht_buckets = [[], [], [], [], [], [new_entry ''Maxwell'' 17], [], [], [], []]\<rparr> \<le> 60 \<and>
   [[], [], [], [], [], [new_entry ''Maxwell'' 17], [], [], [], []] ! carp_ht_hash ''a'' 10 = [] \<and>
   (\<exists>h'. carp_ht_set 100 \<lparr>ht_size = 10, ht_buckets = [[], [], [], [], [], [new_entry ''Maxwell'' 17], [], [], [], []]\<rparr> ''a'' 1
      = Some (Ok, h') \<and>
    carp_ht_abs h' = (carp_ht_abs \<lparr>ht_size = 10, ht_buckets = [[], [], [], [], [], [new_entry ''Maxwell'' 17], [], [], [], []]\<rparr>)(''a'' \<mapsto> 1))"
proof -
  let ?h = "\<lparr>ht_size = 10, ht_buckets = [[], [], [], [], [], [new_entry ''Maxwell'' 17], [], [], [], []]\<rparr>"
  have hyps: "carp_ht_wf ?h" "carp_ht_used ?h \<le> 60" "ht_buckets ?h ! carp_ht_hash ''a'' (ht_size ?h) = []"
    by (simp_all add: carp_eval)
  from hyps carp_ht_set_refines_map [OF hyps, of 100 1] show ?thesis by simp
qed

text \<open>C26: Delete refines map deletion on a well-formed table whose bucket for
  the key holds each key at most once.\<close>

theorem carp_ht_del_refines_map:
  assumes wf: "carp_ht_wf h"
    and dist: "distinct (map ent_key (ht_buckets h ! carp_ht_hash k (ht_size h)))"
  shows "carp_ht_abs (snd (carp_ht_del h k)) = (carp_ht_abs h)(k := None)"
proof
  fix k'
  let ?i = "carp_ht_hash k (ht_size h)"
  let ?c = "ht_buckets h ! ?i"
  have pos: "0 < ht_size h" by (rule carp_ht_wf_index(1) [OF wf])
  have i: "?i < length (ht_buckets h)" by (rule carp_ht_wf_hash_lt [OF wf])
  show "carp_ht_abs (snd (carp_ht_del h k)) k' = ((carp_ht_abs h)(k := None)) k'"
  proof (cases "k' = k")
    case True
    have "\<not> has_key k (chain_remove k ?c)" by (rule chain_remove_distinct [OF dist])
    with carp_ht_del_get [OF wf, of k] True show ?thesis
      by (simp add: carp_ht_abs_def has_key_def find_None_iff)
  next
    case False
    with pos i show ?thesis
      by (auto simp: carp_ht_abs_def carp_ht_del_closed Let_def carp_ht_get_find
          chain_simps nth_list_update)
  qed
qed

theorem carp_ht_del_refines_map_witness:
  "carp_ht_wf \<lparr>ht_size = 10, ht_buckets = [[], [], [], [], [], [new_entry ''Maxwell'' 17, new_entry ''llewxaM'' 18], [], [], [], []]\<rparr> \<and>
   distinct (map ent_key ([[], [], [], [], [], [new_entry ''Maxwell'' 17, new_entry ''llewxaM'' 18], [], [], [], []] ! carp_ht_hash ''Maxwell'' 10)) \<and>
   carp_ht_abs (snd (carp_ht_del \<lparr>ht_size = 10, ht_buckets = [[], [], [], [], [], [new_entry ''Maxwell'' 17, new_entry ''llewxaM'' 18], [], [], [], []]\<rparr> ''Maxwell''))
     = (carp_ht_abs \<lparr>ht_size = 10, ht_buckets = [[], [], [], [], [], [new_entry ''Maxwell'' 17, new_entry ''llewxaM'' 18], [], [], [], []]\<rparr>)(''Maxwell'' := None)"
proof -
  let ?h = "\<lparr>ht_size = 10, ht_buckets = [[], [], [], [], [], [new_entry ''Maxwell'' 17, new_entry ''llewxaM'' 18], [], [], [], []]\<rparr>"
  have hyps: "carp_ht_wf ?h" "distinct (map ent_key (ht_buckets ?h ! carp_ht_hash ''Maxwell'' (ht_size ?h)))"
    by (simp_all add: carp_eval)
  from hyps carp_ht_del_refines_map [OF hyps] show ?thesis by simp
qed

text \<open>C30: The spec's deletion property fails across set and del. On a table at
  the resize threshold, set of a new key resizes and stores the key twice (C6);
  the del that follows reports success but removes one copy only, and the table
  still maps the key to its value.\<close>

theorem carp_set_del_get_survives:
  assumes wf: "carp_ht_wf h" and room: "carp_ht_in_use h \<le> ht_size h"
    and full: "60 < carp_ht_used h" and mem: "2 * ht_size h + 1 \<le> cap"
    and fresh: "k \<notin> carp_ht_keys h"
  shows "\<exists>h' h''. carp_ht_set cap h k v = Some (Ok, h') \<and> carp_ht_del h' k = (Ok, h'') \<and>
                 carp_ht_abs h'' k = Some v"
proof -
  obtain h' where s: "carp_ht_set cap h k v = Some (Ok, h')"
    and b: "ht_buckets h' ! carp_ht_hash k (ht_size h') = [new_entry k v, new_entry k v]"
    using carp_ht_set_resize_duplicates [OF wf room full mem fresh, of v] by blast
  have "carp_ht_wf h'"
    using carp_ht_set_f_load [OF wf _, of cap cap k v Ok h'] room s by (simp add: carp_ht_set_def)
  then have pos: "0 < ht_size h'" and i: "carp_ht_hash k (ht_size h') < length (ht_buckets h')"
    using carp_ht_wf_index by blast+
  let ?h'' = "h'\<lparr>ht_buckets := (ht_buckets h')[carp_ht_hash k (ht_size h') := [new_entry k v]]\<rparr>"
  have d: "carp_ht_del h' k = (Ok, ?h'')" by (simp add: carp_ht_del_def Let_def b)
  have "carp_ht_abs ?h'' k = Some v"
    using pos i by (simp add: carp_ht_abs_def carp_ht_get_find)
  with s d show ?thesis by blast
qed

theorem carp_set_del_get_survives_witness:
  "carp_ht_wf \<lparr>ht_size = 1, ht_buckets = [[new_entry ''a'' 1]]\<rparr> \<and>
   carp_ht_in_use \<lparr>ht_size = 1, ht_buckets = [[new_entry ''a'' 1]]\<rparr> \<le> 1 \<and>
   60 < carp_ht_used \<lparr>ht_size = 1, ht_buckets = [[new_entry ''a'' 1]]\<rparr> \<and>
   ''b'' \<notin> carp_ht_keys \<lparr>ht_size = 1, ht_buckets = [[new_entry ''a'' 1]]\<rparr> \<and>
   (\<exists>h' h''. carp_ht_set 3 \<lparr>ht_size = 1, ht_buckets = [[new_entry ''a'' 1]]\<rparr> ''b'' 2 = Some (Ok, h') \<and>
     carp_ht_del h' ''b'' = (Ok, h'') \<and> carp_ht_abs h'' ''b'' = Some 2)"
proof -
  let ?h = "\<lparr>ht_size = 1, ht_buckets = [[new_entry ''a'' 1]]\<rparr>"
  have hyps: "carp_ht_wf ?h" "carp_ht_in_use ?h \<le> ht_size ?h" "60 < carp_ht_used ?h"
    "2 * ht_size ?h + 1 \<le> 3" "''b'' \<notin> carp_ht_keys ?h"
    by (simp_all add: carp_eval)
  from hyps carp_set_del_get_survives [OF hyps, of 2] show ?thesis by simp
qed

end
